theory Spec2Isabelle
  imports Complex_Main "HOL-Library.Signed_Division" "HOL-Library.Multiset"
begin

section \<open>Errors\<close>

text \<open>
  The C++ code aborts on a failed \<^verbatim>\<open>assert\<close>, throws \<^verbatim>\<open>std::length_error\<close> from
  \<^verbatim>\<open>resize\<close> with a negative size, and has undefined behaviour on an index outside a vector
  and on an integer division by zero.
  Each of these is a value of \<open>error\<close>, returned as \<open>Inl\<close>.
\<close>

datatype error = AssertionFailed | LengthError | OutOfRange | DivideByZero

section \<open>Modulus engine: \<^verbatim>\<open>init_moduli\<close> and \<^verbatim>\<open>update_moduli\<close>\<close>

text \<open>
  \<^verbatim>\<open>delay\<close> and the clock's step count are \<^verbatim>\<open>long\<close>, 64 bits in two's complement. A
  \<^verbatim>\<open>long\<close> is an \<open>int\<close> from \<open>- 2 ^ 63\<close> up to \<open>2 ^ 63 - 1\<close>; \<open>long_of\<close> is the value that a sum
  of two of them has in a \<^verbatim>\<open>long\<close>, with the wrap-around of the machine (C++ leaves signed
  overflow undefined). C++'s truncating \<^verbatim>\<open>/\<close> and \<^verbatim>\<open>%\<close> are \<open>sdiv\<close> and \<open>smod\<close>. The two tables
  \<^verbatim>\<open>moduli_\<close> and \<^verbatim>\<open>slice_moduli_\<close> are the fields of the record.
\<close>

definition long_of :: "int \<Rightarrow> int" where
  "long_of x = (x + 2 ^ 63) mod 2 ^ 64 - 2 ^ 63"

text \<open>\<^verbatim>\<open>min_delay + max_delay\<close>\<close>

definition window :: "int \<Rightarrow> int \<Rightarrow> int" where
  "window min_delay max_delay = long_of (min_delay + max_delay)"

record moduli_tables =
  moduli :: "int list"
  slice_moduli :: "int list"

text \<open>\<^verbatim>\<open>std::vector::resize(n)\<close>: keeps the first \<open>n\<close> elements, pads with the default value.\<close>

definition resize :: "nat \<Rightarrow> 'a \<Rightarrow> 'a list \<Rightarrow> 'a list" where
  "resize n v xs = take n xs @ replicate (n - length xs) v"

text \<open>\<^verbatim>\<open>std::rotate(begin, begin + k, end)\<close>: the element at \<open>k\<close> becomes the first one.\<close>

definition rotate_left :: "nat \<Rightarrow> 'a list \<Rightarrow> 'a list" where
  "rotate_left k xs = drop k xs @ take k xs"

text \<open>
  \<^verbatim>\<open>static_cast< size_t >( std::ceil( static_cast< double >( min_delay + max_delay ) / min_delay ) )\<close>.
  The double quotient is taken as the exact real quotient.
\<close>

definition nbuff_of :: "int \<Rightarrow> int \<Rightarrow> int" where
  "nbuff_of min_delay max_delay =
     \<lceil>real_of_int (window min_delay max_delay) / real_of_int min_delay\<rceil>"

text \<open>Conversion of a \<^verbatim>\<open>long\<close> to \<^verbatim>\<open>size_t\<close> (64 bits), as \<^verbatim>\<open>long % size_t\<close> performs it.\<close>

definition to_size_t :: "int \<Rightarrow> int" where
  "to_size_t x = x mod 2 ^ 64"

text \<open>\<^verbatim>\<open>( steps + d ) % ( min_delay + max_delay )\<close>\<close>

definition modulus :: "int \<Rightarrow> int \<Rightarrow> int \<Rightarrow> nat \<Rightarrow> int" where
  "modulus min_delay max_delay steps d =
     long_of (steps + int d) smod window min_delay max_delay"

text \<open>
  \<^verbatim>\<open>( ( steps + d ) / min_delay ) % nbuff\<close>: the quotient is a \<^verbatim>\<open>long\<close>, converted to \<^verbatim>\<open>size_t\<close>
  for \<^verbatim>\<open>%\<close>, and the result is stored as a \<^verbatim>\<open>long\<close>.
\<close>

definition slice_modulus :: "int \<Rightarrow> int \<Rightarrow> int \<Rightarrow> nat \<Rightarrow> int" where
  "slice_modulus min_delay max_delay steps d =
     long_of (to_size_t (long_of (long_of (steps + int d) sdiv min_delay))
                mod to_size_t (nbuff_of min_delay max_delay))"

text \<open>The loop \<^verbatim>\<open>for ( delay d = 0; d < n; ++d ) table[ d ] = f( d );\<close>\<close>

definition fill_table :: "(nat \<Rightarrow> int) \<Rightarrow> nat \<Rightarrow> int list \<Rightarrow> int list" where
  "fill_table f n table = fold (\<lambda>d t. t[d := f d]) [0..<n] table"

definition init_moduli :: "int \<Rightarrow> int \<Rightarrow> int \<Rightarrow> moduli_tables \<Rightarrow> error + moduli_tables" where
  "init_moduli min_delay max_delay steps st =
     (if min_delay = 0 \<or> max_delay = 0 then Inl AssertionFailed
      else if window min_delay max_delay < 0 then Inl LengthError
      else
        let n = nat (window min_delay max_delay) in
        Inr \<lparr> moduli = fill_table (modulus min_delay max_delay steps) n
                          (resize n 0 (moduli st)),
              slice_moduli = fill_table (slice_modulus min_delay max_delay steps) n
                          (resize n 0 (slice_moduli st)) \<rparr>)"

definition update_moduli :: "int \<Rightarrow> int \<Rightarrow> int \<Rightarrow> moduli_tables \<Rightarrow> error + moduli_tables" where
  "update_moduli min_delay max_delay steps st =
     (if min_delay = 0 \<or> max_delay = 0 then Inl AssertionFailed
      else if int (length (moduli st)) \<noteq> to_size_t (window min_delay max_delay)
      then Inl AssertionFailed
      else if min_delay < 0 \<or> int (length (moduli st)) < min_delay then Inl OutOfRange
      else if int (length (slice_moduli st)) < window min_delay max_delay then Inl OutOfRange
      else
        Inr \<lparr> moduli = rotate_left (nat min_delay) (moduli st),
              slice_moduli = fill_table (slice_modulus min_delay max_delay steps)
                          (nat (window min_delay max_delay)) (slice_moduli st) \<rparr>)"

text \<open>
  A run of \<open>n\<close> slices: in each one the clock advances by \<open>min_delay\<close> steps, a sum of two
  \<^verbatim>\<open>long\<close>, and \<^verbatim>\<open>update_moduli\<close> is called at the new step count.
\<close>

fun advance_slices :: "nat \<Rightarrow> int \<Rightarrow> int \<Rightarrow> int \<Rightarrow> moduli_tables \<Rightarrow> error + moduli_tables" where
  "advance_slices 0 min_delay max_delay steps st = Inr st"
| "advance_slices (Suc n) min_delay max_delay steps st =
     (case update_moduli min_delay max_delay (long_of (steps + min_delay)) st of
        Inl e \<Rightarrow> Inl e
      | Inr st' \<Rightarrow> advance_slices n min_delay max_delay (long_of (steps + min_delay)) st')"

section \<open>Wire records\<close>

text \<open>
  A name of the source that ends in an underscore is written without it
  (\<^verbatim>\<open>deliver_events_5g_\<close> is \<open>deliver_events_5g\<close>).
\<close>

text \<open>
  Modelled from the spec: the declaration of \<^verbatim>\<open>SpikeData\<close> is not among the sources. The
  fields are the ones the source reads, \<^verbatim>\<open>tid\<close>, \<^verbatim>\<open>syn_index\<close>, \<^verbatim>\<open>lcid\<close> and \<^verbatim>\<open>lag\<close>, which
  are the ones the spec lists: destination thread id, synapse and connection identifiers,
  delay lag.
\<close>

record SpikeData =
  tid :: nat
  syn_index :: nat
  lcid :: nat
  lag :: nat

text \<open>
  The member functions \<^verbatim>\<open>set_empty()\<close>, \<^verbatim>\<open>set_complete()\<close>, \<^verbatim>\<open>is_empty()\<close> and
  \<^verbatim>\<open>is_complete()\<close> of \<^verbatim>\<open>SpikeData\<close>. How a record carries the two sentinel states of the
  spec is not in the sources, so the four functions are parameters.
\<close>

record spike_data_members =
  spike_set_empty :: "SpikeData \<Rightarrow> SpikeData"
  spike_set_complete :: "SpikeData \<Rightarrow> SpikeData"
  spike_is_empty :: "SpikeData \<Rightarrow> bool"
  spike_is_complete :: "SpikeData \<Rightarrow> bool"

text \<open>
  Modelled from the spec: the declaration of \<^verbatim>\<open>TargetData\<close> is not among the sources. The
  source reads \<^verbatim>\<open>gid\<close>; the fields it never reads are the single field \<open>target\<close>. Its
  member functions \<^verbatim>\<open>is_empty()\<close> and \<^verbatim>\<open>is_complete()\<close> are parameters.
\<close>

record TargetData =
  gid :: nat
  target :: nat

record target_data_members =
  target_is_empty :: "TargetData \<Rightarrow> bool"
  target_is_complete :: "TargetData \<Rightarrow> bool"

section \<open>The kernel's managers and the spike register, as the source uses them\<close>

text \<open>
  The getters of \<^verbatim>\<open>kernel().mpi_manager\<close>, \<^verbatim>\<open>vp_manager\<close>, \<^verbatim>\<open>connection_builder_manager\<close> and
  \<^verbatim>\<open>simulation_manager\<close> that the source calls; their classes are not among the sources,
  so what they return is a parameter. A getter the source calls from inside the parallel
  region may depend on the calling thread and takes its id. \<^verbatim>\<open>communicate_Alltoall\<close> gets the
  number of the round, the send buffer, the receive buffer and the count, and returns the
  receive buffer it leaves. \<open>words_per_record\<close> is
  \<^verbatim>\<open>sizeof( SpikeData ) / sizeof( unsigned int )\<close>.
\<close>

record kernel =
  get_num_processes :: nat
  get_num_threads :: nat
  get_num_assigned_ranks_per_thread :: "nat \<Rightarrow> nat"
  get_start_rank_per_thread :: "nat \<Rightarrow> nat"
  get_end_rank_per_thread :: "nat \<Rightarrow> nat"
  get_min_delay :: int
  get_from_step :: int
  get_clock_steps :: int
  words_per_record :: nat
  communicate_Alltoall :: "nat \<Rightarrow> SpikeData list \<Rightarrow> SpikeData list \<Rightarrow> nat \<Rightarrow> SpikeData list"

text \<open>
  The member functions of \<^verbatim>\<open>spike_register_table_\<close> that the source calls, on the part \<open>'r\<close>
  of the table that belongs to one thread. The class is not among the sources, so the
  functions are parameters of everything that calls them.
\<close>

record 'r spike_register_ops =
  reset_entry_point :: "'r \<Rightarrow> 'r"
  save_entry_point :: "'r \<Rightarrow> 'r"
  restore_entry_point :: "'r \<Rightarrow> 'r"
  get_next_spike_data :: "'r \<Rightarrow> nat \<Rightarrow> nat \<Rightarrow> (nat \<times> SpikeData) option \<times> 'r"
  reject_last_spike_data :: "'r \<Rightarrow> 'r"
  clear_register :: "'r \<Rightarrow> 'r"

text \<open>
  Modelled from the spec: the checkpointed register iterator, whose class
  \<^verbatim>\<open>SpikeRegisterTable\<close> is not among the sources. The spec: a per-thread source of pending
  outgoing records that supports save and restore of an iteration position and "reject
  last" (undo the most recent advance); \<^verbatim>\<open>get_next(tid, rank_range)\<close> gives the next pending
  record restricted to destination ranks in the range, with its destination rank, or none.
\<close>

record spike_register =
  entries :: "(nat \<times> SpikeData) list"
  current :: nat
  previous :: nat
  saved :: nat

definition in_rank_range :: "nat \<Rightarrow> nat \<Rightarrow> nat \<times> SpikeData \<Rightarrow> bool" where
  "in_rank_range rank_start rank_end e = (rank_start \<le> fst e \<and> fst e < rank_end)"

definition register_get_next ::
  "spike_register \<Rightarrow> nat \<Rightarrow> nat \<Rightarrow> (nat \<times> SpikeData) option \<times> spike_register" where
  "register_get_next r rank_start rank_end =
     (let skipped = takeWhile (\<lambda>e. \<not> in_rank_range rank_start rank_end e)
                      (drop (current r) (entries r));
          i = current r + length skipped
      in if i < length (entries r)
         then (Some (entries r ! i), r\<lparr>current := Suc i, previous := current r\<rparr>)
         else (None, r\<lparr>current := length (entries r), previous := current r\<rparr>))"

definition checkpointed_register :: "spike_register spike_register_ops" where
  "checkpointed_register =
     \<lparr> reset_entry_point = (\<lambda>r. r\<lparr>current := 0, previous := 0, saved := 0\<rparr>),
       save_entry_point = (\<lambda>r. r\<lparr>saved := current r\<rparr>),
       restore_entry_point = (\<lambda>r. r\<lparr>current := saved r\<rparr>),
       get_next_spike_data = register_get_next,
       reject_last_spike_data = (\<lambda>r. r\<lparr>current := previous r\<rparr>),
       clear_register = (\<lambda>r. r\<lparr>entries := [], current := 0, previous := 0, saved := 0\<rparr>) \<rparr>"

section \<open>Segment size\<close>

text \<open>
  \<^verbatim>\<open>ceil( send_buffer_spike_data_.size() / kernel().mpi_manager.get_num_processes() )\<close>: the
  quotient is a division of integers, \<^verbatim>\<open>ceil\<close> is applied to its result. The division by a
  process count of 0 is an error of its own.
\<close>

definition num_spike_data_per_rank :: "nat \<Rightarrow> nat \<Rightarrow> nat" where
  "num_spike_data_per_rank buffer_size num_processes =
     nat \<lceil>real (buffer_size div num_processes)\<rceil>"

text \<open>
  \<^verbatim>\<open>send_recv_count\<close> of \<^verbatim>\<open>gather_spike_data\<close>:
  \<^verbatim>\<open>sizeof( SpikeData ) / sizeof( unsigned int ) * ceil( size / num_processes )\<close>.
\<close>

definition send_recv_count :: "kernel \<Rightarrow> nat \<Rightarrow> nat" where
  "send_recv_count k buffer_size =
     words_per_record k * num_spike_data_per_rank buffer_size (get_num_processes k)"

section \<open>\<^verbatim>\<open>prepare_spike_data_buffers_\<close>\<close>

definition prepare_spike_data_buffers ::
  "spike_data_members \<Rightarrow> bool \<Rightarrow> SpikeData list \<Rightarrow> SpikeData list" where
  "prepare_spike_data_buffers sd me_completed send_buffer =
     (if \<not> me_completed then map (spike_set_empty sd) send_buffer
      else map (spike_set_complete sd) send_buffer)"

section \<open>\<^verbatim>\<open>collocate_spike_data_buffers_\<close>\<close>

text \<open>
  The local variables of the function and the two objects it changes. \<open>writes\<close> is the log
  of the assignments \<^verbatim>\<open>send_buffer_spike_data_[ idx ] = next_spike_data\<close> in the order made,
  each with its \<open>idx\<close>, its \<open>target_rank\<close>, the value of
  \<^verbatim>\<open>send_buffer_offset[ target_rank_index ]\<close> it used, and the record assigned.
\<close>

record 'r collocate_state =
  send_buffer :: "SpikeData list"
  send_buffer_offset :: "nat list"
  sum_send_buffer_offset :: nat
  buffer_untouched :: bool
  register :: 'r
  writes :: "(nat \<times> nat \<times> nat \<times> SpikeData) list"

datatype outcome = Continue | Return bool

text \<open>
  One pass through the body of \<^verbatim>\<open>while ( true )\<close>. An index outside
  \<^verbatim>\<open>send_buffer_offset\<close> or outside the send buffer is \<open>OutOfRange\<close>.
\<close>

definition collocate_body ::
  "'r spike_register_ops \<Rightarrow> nat \<Rightarrow> nat \<Rightarrow> nat \<Rightarrow> nat \<Rightarrow> 'r collocate_state
     \<Rightarrow> error + (outcome \<times> 'r collocate_state)" where
  "collocate_body ops num_per_rank num_assigned rank_start rank_end st =
     (case get_next_spike_data ops (register st) rank_start rank_end of
        (None, r) \<Rightarrow> Inr (Return (buffer_untouched st), st\<lparr>register := r\<rparr>)
      | (Some (target_rank, next_spike_data), r) \<Rightarrow>
          if target_rank < rank_start
             \<or> length (send_buffer_offset st) \<le> target_rank - rank_start
          then Inl OutOfRange
          else
            let target_rank_index = target_rank - rank_start;
                offset = send_buffer_offset st ! target_rank_index
            in if offset < num_per_rank
               then
                 let idx = target_rank * num_per_rank + offset
                 in if length (send_buffer st) \<le> idx then Inl OutOfRange
                    else
                      let st' = st\<lparr> send_buffer := (send_buffer st)[idx := next_spike_data],
                                    send_buffer_offset :=
                                      (send_buffer_offset st)[target_rank_index := Suc offset],
                                    sum_send_buffer_offset := Suc (sum_send_buffer_offset st),
                                    buffer_untouched := False,
                                    register := r,
                                    writes := writes st @ [(idx, target_rank, offset, next_spike_data)] \<rparr>
                      in if sum_send_buffer_offset st' = num_per_rank * num_assigned
                         then Inr (Return (buffer_untouched st'), st')
                         else Inr (Continue, st')
               else
                 let st' = st\<lparr> register :=
                                 save_entry_point ops (reject_last_spike_data ops r) \<rparr>
                 in if sum_send_buffer_offset st' = num_per_rank * num_assigned
                    then Inr (Return (buffer_untouched st'), st')
                    else Inr (Continue, st'))"

text \<open>
  The loop \<^verbatim>\<open>while ( true )\<close>, with fuel: \<open>None\<close> when the fuel does not suffice.
\<close>

fun collocate_loop ::
  "nat \<Rightarrow> 'r spike_register_ops \<Rightarrow> nat \<Rightarrow> nat \<Rightarrow> nat \<Rightarrow> nat \<Rightarrow> 'r collocate_state
     \<Rightarrow> (error + (bool \<times> 'r collocate_state)) option" where
  "collocate_loop 0 ops num_per_rank num_assigned rank_start rank_end st = None"
| "collocate_loop (Suc fuel) ops num_per_rank num_assigned rank_start rank_end st =
     (case collocate_body ops num_per_rank num_assigned rank_start rank_end st of
        Inl e \<Rightarrow> Some (Inl e)
      | Inr (Return b, st') \<Rightarrow> Some (Inr (b, st'))
      | Inr (Continue, st') \<Rightarrow>
          collocate_loop fuel ops num_per_rank num_assigned rank_start rank_end st')"

definition collocate_spike_data_buffers ::
  "nat \<Rightarrow> kernel \<Rightarrow> 'r spike_register_ops \<Rightarrow> nat \<Rightarrow> SpikeData list \<Rightarrow> 'r
     \<Rightarrow> (error + (bool \<times> 'r collocate_state)) option" where
  "collocate_spike_data_buffers fuel k ops thread_id send_buf r =
     (if get_num_processes k = 0 then Some (Inl DivideByZero)
      else
        let num_assigned = get_num_assigned_ranks_per_thread k thread_id;
            rank_start = get_start_rank_per_thread k thread_id;
            rank_end = get_end_rank_per_thread k thread_id;
            st = \<lparr> send_buffer = send_buf,
                   send_buffer_offset = replicate num_assigned 0,
                   sum_send_buffer_offset = 0,
                   buffer_untouched = True,
                   register = r,
                   writes = [] \<rparr>;
            num_per_rank = num_spike_data_per_rank (length send_buf) (get_num_processes k)
        in if rank_start \<noteq> rank_end
           then collocate_loop fuel ops num_per_rank num_assigned rank_start rank_end st
           else Some (Inr (buffer_untouched st, st)))"

section \<open>\<^verbatim>\<open>collocate_target_data_buffers_\<close>\<close>

text \<open>
  The functions of \<^verbatim>\<open>kernel().connection_builder_manager\<close> and \<^verbatim>\<open>kernel().node_manager\<close> that
  the function calls, on the part \<open>'c\<close> of the source table that belongs to one thread, and
  the constant \<^verbatim>\<open>invalid_index\<close>; none of them is among the sources, so they are parameters.
\<close>

record 'c source_table_ops =
  get_next_target_data :: "'c \<Rightarrow> nat \<Rightarrow> nat \<Rightarrow> TargetData \<times> 'c"
  reject_last_target_data :: "'c \<Rightarrow> 'c"
  save_source_table_entry_point :: "'c \<Rightarrow> 'c"
  get_process_id_of_gid :: "nat \<Rightarrow> nat"
  invalid_index :: nat

text \<open>
  The local variables of the function, the send buffer it is given and the source table.
  \<open>target_writes\<close> is the log of the assignments \<^verbatim>\<open>send_buffer[ idx ] = next_target_data\<close>.
\<close>

record 'c collocate_target_state =
  target_send_buffer :: "TargetData list"
  target_send_buffer_offset :: "nat list"
  target_sum_send_buffer_offset :: nat
  source_table :: 'c
  target_writes :: "(nat \<times> nat \<times> nat) list"

datatype target_outcome = Next_target | Break

text \<open>One pass through the body of \<^verbatim>\<open>while ( true )\<close> of the function.\<close>

definition collocate_target_body ::
  "'c source_table_ops \<Rightarrow> nat \<Rightarrow> nat \<Rightarrow> nat \<Rightarrow> nat \<Rightarrow> 'c collocate_target_state
     \<Rightarrow> error + (target_outcome \<times> 'c collocate_target_state)" where
  "collocate_target_body ops num_per_rank num_assigned rank_start rank_end st =
     (case get_next_target_data ops (source_table st) rank_start rank_end of
        (next_target_data, c) \<Rightarrow>
          if gid next_target_data = invalid_index ops
          then Inr (Break, st\<lparr> source_table := c \<rparr>)
          else
            let target_rank = get_process_id_of_gid ops (gid next_target_data)
            in if target_rank < rank_start
                  \<or> length (target_send_buffer_offset st) \<le> target_rank - rank_start
               then Inl OutOfRange
               else
                 let target_rank_index = target_rank - rank_start;
                     offset = target_send_buffer_offset st ! target_rank_index
                 in if offset < num_per_rank
                    then
                      let idx = target_rank * num_per_rank + offset
                      in if length (target_send_buffer st) \<le> idx then Inl OutOfRange
                         else
                           let st' = st\<lparr> target_send_buffer :=
                                           (target_send_buffer st)[idx := next_target_data],
                                         target_send_buffer_offset :=
                                           (target_send_buffer_offset st)
                                             [target_rank_index := Suc offset],
                                         target_sum_send_buffer_offset :=
                                           Suc (target_sum_send_buffer_offset st),
                                         source_table := c,
                                         target_writes :=
                                           target_writes st @ [(idx, target_rank, offset)] \<rparr>
                           in if target_sum_send_buffer_offset st' = num_per_rank * num_assigned
                              then Inr (Break, st')
                              else Inr (Next_target, st')
                    else
                      let st' = st\<lparr> source_table :=
                                      save_source_table_entry_point ops
                                        (reject_last_target_data ops c) \<rparr>
                      in if target_sum_send_buffer_offset st' = num_per_rank * num_assigned
                         then Inr (Break, st')
                         else Inr (Next_target, st'))"

fun collocate_target_loop ::
  "nat \<Rightarrow> 'c source_table_ops \<Rightarrow> nat \<Rightarrow> nat \<Rightarrow> nat \<Rightarrow> nat \<Rightarrow> 'c collocate_target_state
     \<Rightarrow> (error + 'c collocate_target_state) option" where
  "collocate_target_loop 0 ops num_per_rank num_assigned rank_start rank_end st = None"
| "collocate_target_loop (Suc fuel) ops num_per_rank num_assigned rank_start rank_end st =
     (case collocate_target_body ops num_per_rank num_assigned rank_start rank_end st of
        Inl e \<Rightarrow> Some (Inl e)
      | Inr (Break, st') \<Rightarrow> Some (Inr st')
      | Inr (Next_target, st') \<Rightarrow>
          collocate_target_loop fuel ops num_per_rank num_assigned rank_start rank_end st')"

text \<open>
  \<^verbatim>\<open>num_target_data_per_rank\<close> is \<^verbatim>\<open>ceil( send_buffer.size() / get_num_processes() )\<close>, the
  expression of \<open>num_spike_data_per_rank\<close>.
\<close>

definition collocate_target_data_buffers ::
  "nat \<Rightarrow> kernel \<Rightarrow> 'c source_table_ops \<Rightarrow> nat \<Rightarrow> TargetData list \<Rightarrow> 'c
     \<Rightarrow> (error + 'c collocate_target_state) option" where
  "collocate_target_data_buffers fuel k ops thread_id send_buf c =
     (if get_num_processes k = 0 then Some (Inl DivideByZero)
      else
        let num_assigned = get_num_assigned_ranks_per_thread k thread_id;
            rank_start = get_start_rank_per_thread k thread_id;
            rank_end = get_end_rank_per_thread k thread_id;
            st = \<lparr> target_send_buffer = send_buf,
                   target_send_buffer_offset = replicate num_assigned 0,
                   target_sum_send_buffer_offset = 0,
                   source_table = c,
                   target_writes = [] \<rparr>;
            num_per_rank = num_spike_data_per_rank (length send_buf) (get_num_processes k)
        in if rank_start \<noteq> rank_end
           then collocate_target_loop fuel ops num_per_rank num_assigned rank_start rank_end st
           else Some (Inr st))"

section \<open>\<^verbatim>\<open>deliver_events_5g_\<close>\<close>

text \<open>
  A call \<^verbatim>\<open>send_5g( tid, syn_index, lcid, se )\<close> is the tuple of its first three arguments
  and the stamp of \<open>se\<close>, a \<^verbatim>\<open>Time\<close> taken as its number of steps. The routing layer is the
  log of the calls made to it.
\<close>

type_synonym send_5g_call = "nat \<times> nat \<times> nat \<times> int"

text \<open>\<^verbatim>\<open>prepared_timestamps[ lag ] = get_clock() + Time::step( lag + 1 )\<close> for \<open>lag < min_delay\<close>.\<close>

definition prepared_timestamps :: "kernel \<Rightarrow> int list" where
  "prepared_timestamps k =
     map (\<lambda>lag. get_clock_steps k + int (lag + 1)) [0..<nat (get_min_delay k)]"

text \<open>
  The loop over the receive buffer. \<^verbatim>\<open>prepared_timestamps[ it->lag ]\<close> outside the vector is
  \<open>OutOfRange\<close>.
\<close>

fun deliver_loop ::
  "nat \<Rightarrow> int list \<Rightarrow> SpikeData list \<Rightarrow> send_5g_call list \<times> bool
     \<Rightarrow> error + (send_5g_call list \<times> bool)" where
  "deliver_loop thread_id stamps [] acc = Inr acc"
| "deliver_loop thread_id stamps (it # rest) (calls, no_spikes_delivered) =
     (if tid it = thread_id
      then if lag it < length stamps
           then deliver_loop thread_id stamps rest
                  (calls @ [(thread_id, syn_index it, lcid it, stamps ! lag it)], False)
           else Inl OutOfRange
      else deliver_loop thread_id stamps rest (calls, no_spikes_delivered))"

definition deliver_events_5g ::
  "kernel \<Rightarrow> nat \<Rightarrow> SpikeData list \<Rightarrow> error + (send_5g_call list \<times> bool)" where
  "deliver_events_5g k thread_id recv_buffer =
     (if get_from_step k > 0 then Inr ([], True)
      else if get_min_delay k < 0 then Inl LengthError
      else deliver_loop thread_id (prepared_timestamps k) recv_buffer ([], True))"

section \<open>\<^verbatim>\<open>distribute_target_data_buffers_\<close>\<close>

text \<open>
  \<^verbatim>\<open>is_vp_local\<close> of the \<^verbatim>\<open>vp_manager\<close> is a parameter. The result is the log of the calls
  \<^verbatim>\<open>add_target( tid, *it )\<close>, in the order made.
\<close>

fun distribute_target_data_buffers ::
  "target_data_members \<Rightarrow> (nat \<Rightarrow> bool) \<Rightarrow> nat \<Rightarrow> TargetData list
     \<Rightarrow> (nat \<times> TargetData) list" where
  "distribute_target_data_buffers td is_vp_local thread_id [] = []"
| "distribute_target_data_buffers td is_vp_local thread_id (it # rest) =
     (if (\<not> target_is_empty td it) \<and> (\<not> target_is_complete td it) \<and> is_vp_local (gid it)
      then (thread_id, it) # distribute_target_data_buffers td is_vp_local thread_id rest
      else distribute_target_data_buffers td is_vp_local thread_id rest)"

section \<open>\<^verbatim>\<open>gather_spike_data\<close>\<close>

text \<open>
  The state of one rank: the two buffers, the spike register table (one part per thread),
  the two static flags and the log of the calls of \<^verbatim>\<open>send_5g\<close>. \<open>collocated\<close> is the log of the
  writes that the collocation calls of the current round have made to the send buffer.
  \<open>exchanges\<close> is the log of the calls of \<^verbatim>\<open>communicate_Alltoall\<close>: for each call, in the order
  made, the send buffer passed and the receive buffer the call left.
  The calls \<^verbatim>\<open>reset_current_index_target_table\<close> and \<^verbatim>\<open>toggle_target_processed_flags\<close> work on
  objects that are not part of this state.
\<close>

record 'r rank_state =
  send_buffer_spike_data :: "SpikeData list"
  recv_buffer_spike_data :: "SpikeData list"
  spike_register_table :: "'r list"
  me_completed :: bool
  others_completed :: bool
  send_5g_calls :: "send_5g_call list"
  collocated :: "(nat \<times> nat \<times> nat \<times> SpikeData) list"
  exchanges :: "(SpikeData list \<times> SpikeData list) list"

text \<open>
  The threads of the parallel region run the function in lockstep between its barriers, and
  between two barriers they work on parts of the state that are their own. A statement that
  every thread executes on its own part of the register table is \<open>per_thread\<close>; a call that
  works on the shared buffers is made thread by thread, in the order of the thread ids.
\<close>

definition per_thread :: "('r \<Rightarrow> 'r) \<Rightarrow> nat \<Rightarrow> 'r list \<Rightarrow> 'r list" where
  "per_thread f num_threads table = map f (take num_threads table) @ drop num_threads table"

text \<open>
  From the top of \<^verbatim>\<open>while ( true )\<close> to the first barrier: the flags are set to true,
  every thread restores its entry point, and the send buffer is prepared with the value
  \<^verbatim>\<open>me_completed\<close> has at that point.
\<close>

definition round_begin ::
  "kernel \<Rightarrow> 'r spike_register_ops \<Rightarrow> spike_data_members \<Rightarrow> 'r rank_state
     \<Rightarrow> 'r rank_state" where
  "round_begin k ops sd st =
     (let st1 = st\<lparr> me_completed := True, others_completed := True, collocated := [] \<rparr>;
          st2 = st1\<lparr> spike_register_table :=
                  per_thread (restore_entry_point ops) (get_num_threads k)
                    (spike_register_table st1) \<rparr>
      in st2\<lparr> send_buffer_spike_data :=
                prepare_spike_data_buffers sd (me_completed st2) (send_buffer_spike_data st2) \<rparr>)"

text \<open>
  \<^verbatim>\<open>me_completed_tid = collocate_spike_data_buffers_( tid );\<close> and
  \<^verbatim>\<open>me_completed = me_completed && me_completed_tid;\<close> for the threads of the list.
\<close>

fun collocate_threads ::
  "nat \<Rightarrow> kernel \<Rightarrow> 'r spike_register_ops \<Rightarrow> nat list \<Rightarrow> 'r rank_state
     \<Rightarrow> (error + 'r rank_state) option" where
  "collocate_threads fuel k ops [] st = Some (Inr st)"
| "collocate_threads fuel k ops (t # ts) st =
     (if length (spike_register_table st) \<le> t then Some (Inl OutOfRange)
      else
        case collocate_spike_data_buffers fuel k ops t (send_buffer_spike_data st)
               (spike_register_table st ! t) of
          None \<Rightarrow> None
        | Some (Inl e) \<Rightarrow> Some (Inl e)
        | Some (Inr (me_completed_tid, c)) \<Rightarrow>
            collocate_threads fuel k ops ts
              (st\<lparr> send_buffer_spike_data := send_buffer c,
                    spike_register_table := (spike_register_table st)[t := register c],
                    me_completed := (me_completed st \<and> me_completed_tid),
                    collocated := collocated st @ writes c \<rparr>))"

text \<open>
  \<^verbatim>\<open>others_completed_tid = deliver_events_5g_( tid );\<close> and
  \<^verbatim>\<open>others_completed = others_completed && others_completed_tid;\<close> for the threads of the
  list.
\<close>

fun deliver_threads :: "kernel \<Rightarrow> nat list \<Rightarrow> 'r rank_state \<Rightarrow> error + 'r rank_state" where
  "deliver_threads k [] st = Inr st"
| "deliver_threads k (t # ts) st =
     (case deliver_events_5g k t (recv_buffer_spike_data st) of
        Inl e \<Rightarrow> Inl e
      | Inr (calls, others_completed_tid) \<Rightarrow>
          deliver_threads k ts
            (st\<lparr> send_5g_calls := send_5g_calls st @ calls,
                  others_completed := (others_completed st \<and> others_completed_tid) \<rparr>))"

text \<open>The second \<^verbatim>\<open>prepare_spike_data_buffers_( me_completed )\<close>, under \<^verbatim>\<open>if ( me_completed )\<close>.\<close>

definition round_reprepare :: "spike_data_members \<Rightarrow> 'r rank_state \<Rightarrow> 'r rank_state" where
  "round_reprepare sd st =
     (if me_completed st
      then st\<lparr> send_buffer_spike_data :=
                  prepare_spike_data_buffers sd (me_completed st) (send_buffer_spike_data st) \<rparr>
      else st)"

text \<open>
  \<^verbatim>\<open>save_entry_point( tid )\<close> by every thread, then the all-to-all of the single thread.
\<close>

definition round_exchange ::
  "kernel \<Rightarrow> 'r spike_register_ops \<Rightarrow> nat \<Rightarrow> 'r rank_state \<Rightarrow> 'r rank_state" where
  "round_exchange k ops round_no st =
     (let st1 = st\<lparr> spike_register_table :=
                  per_thread (save_entry_point ops) (get_num_threads k)
                    (spike_register_table st) \<rparr>;
          received = communicate_Alltoall k round_no (send_buffer_spike_data st1)
                       (recv_buffer_spike_data st1)
                       (send_recv_count k (length (send_buffer_spike_data st1)))
      in st1\<lparr> recv_buffer_spike_data := received,
               exchanges := exchanges st1 @ [(send_buffer_spike_data st1, received)] \<rparr>)"

text \<open>One pass through the body of \<^verbatim>\<open>while ( true )\<close> of \<^verbatim>\<open>gather_spike_data\<close>.\<close>

definition gather_round ::
  "nat \<Rightarrow> kernel \<Rightarrow> 'r spike_register_ops \<Rightarrow> spike_data_members \<Rightarrow> nat \<Rightarrow> 'r rank_state
     \<Rightarrow> (error + 'r rank_state) option" where
  "gather_round fuel k ops sd round_no st =
     (if length (spike_register_table st) < get_num_threads k then Some (Inl OutOfRange)
      else
        case collocate_threads fuel k ops [0..<get_num_threads k] (round_begin k ops sd st) of
          None \<Rightarrow> None
        | Some (Inl e) \<Rightarrow> Some (Inl e)
        | Some (Inr st2) \<Rightarrow>
            (case deliver_threads k [0..<get_num_threads k]
                    (round_exchange k ops round_no (round_reprepare sd st2)) of
               Inl e \<Rightarrow> Some (Inl e)
             | Inr st3 \<Rightarrow> Some (Inr st3)))"

text \<open>
  The loop, with fuel for the number of rounds and for each collocation loop: \<open>None\<close> when
  the fuel does not suffice.
\<close>

fun gather_loop ::
  "nat \<Rightarrow> nat \<Rightarrow> kernel \<Rightarrow> 'r spike_register_ops \<Rightarrow> spike_data_members \<Rightarrow> nat
     \<Rightarrow> 'r rank_state \<Rightarrow> (error + 'r rank_state) option" where
  "gather_loop 0 cfuel k ops sd round_no st = None"
| "gather_loop (Suc fuel) cfuel k ops sd round_no st =
     (case gather_round cfuel k ops sd round_no st of
        None \<Rightarrow> None
      | Some (Inl e) \<Rightarrow> Some (Inl e)
      | Some (Inr st') \<Rightarrow>
          if me_completed st' \<and> others_completed st' then Some (Inr st')
          else gather_loop fuel cfuel k ops sd (Suc round_no) st')"

definition gather_spike_data ::
  "nat \<Rightarrow> kernel \<Rightarrow> 'r spike_register_ops \<Rightarrow> spike_data_members \<Rightarrow> 'r rank_state
     \<Rightarrow> (error + 'r rank_state) option" where
  "gather_spike_data fuel k ops sd st =
     (if get_num_processes k = 0 then Some (Inl DivideByZero)
      else if length (spike_register_table st) < get_num_threads k then Some (Inl OutOfRange)
      else
        case gather_loop fuel fuel k ops sd 0
               (st\<lparr> spike_register_table :=
                      per_thread (reset_entry_point ops) (get_num_threads k)
                        (spike_register_table st) \<rparr>) of
          None \<Rightarrow> None
        | Some (Inl e) \<Rightarrow> Some (Inl e)
        | Some (Inr st') \<Rightarrow>
            Some (Inr (st'\<lparr> spike_register_table :=
                             per_thread (clear_register ops) (get_num_threads k)
                               (spike_register_table st') \<rparr>)))"

section \<open>Auxiliary definitions for the statements\<close>

text \<open>
  Every logged write \<open>(idx, rank, off, sd)\<close> is at \<open>idx = rank * m + off\<close> with \<open>off < m\<close>,
  for a rank of the range from \<open>a\<close> up to \<open>b\<close>, and inside a buffer of \<open>len\<close> slots.
\<close>

definition writes_in_segments ::
  "nat \<Rightarrow> nat \<Rightarrow> nat \<Rightarrow> nat \<Rightarrow> (nat \<times> nat \<times> nat \<times> 'a) list \<Rightarrow> bool" where
  "writes_in_segments m a b len ws =
     (\<forall>(idx, rank, off, sd)\<in>set ws.
        idx = rank * m + off \<and> off < m \<and> a \<le> rank \<and> rank < b \<and> idx < len)"

text \<open>The call of \<^verbatim>\<open>send_5g\<close> that \<^verbatim>\<open>deliver_events_5g_\<close> makes for a record.\<close>

definition delivery :: "kernel \<Rightarrow> SpikeData \<Rightarrow> send_5g_call" where
  "delivery k sd = (tid sd, syn_index sd, lcid sd, get_clock_steps k + int (lag sd) + 1)"










section \<open>Concrete inputs\<close>

definition spike :: "nat \<Rightarrow> nat \<Rightarrow> nat \<Rightarrow> nat \<Rightarrow> SpikeData" where
  "spike t s l g = \<lparr> tid = t, syn_index = s, lcid = l, lag = g \<rparr>"

text \<open>
  An instance of the member functions of \<^verbatim>\<open>SpikeData\<close>: the two sentinel states are two
  thread ids that no thread has.
\<close>

definition reserved_thread_ids :: spike_data_members where
  "reserved_thread_ids =
     \<lparr> spike_set_empty = (\<lambda>sd. sd\<lparr> tid := 1022 \<rparr>),
       spike_set_complete = (\<lambda>sd. sd\<lparr> tid := 1023 \<rparr>),
       spike_is_empty = (\<lambda>sd. tid sd = 1022),
       spike_is_complete = (\<lambda>sd. tid sd = 1023) \<rparr>"

text \<open>
  An instance of the member functions of \<^verbatim>\<open>TargetData\<close>: the two sentinel states are two
  values of the fields the source does not read.
\<close>

definition reserved_targets :: target_data_members where
  "reserved_targets =
     \<lparr> target_is_empty = (\<lambda>td. target td = 1),
       target_is_complete = (\<lambda>td. target td = 2) \<rparr>"

text \<open>
  One process with one thread, \<open>min_delay = 2\<close>, the clock at step 10; \<open>step\<close> is the value
  of \<^verbatim>\<open>get_from_step()\<close>. With one process the all-to-all copies the single segment of the
  send buffer (\<open>count\<close> words, two words a record) to the receive buffer.
\<close>

definition single_process_kernel :: "int \<Rightarrow> kernel" where
  "single_process_kernel step =
     \<lparr> get_num_processes = 1, get_num_threads = 1,
       get_num_assigned_ranks_per_thread = (\<lambda>t. 1),
       get_start_rank_per_thread = (\<lambda>t. 0),
       get_end_rank_per_thread = (\<lambda>t. 1),
       get_min_delay = 2, get_from_step = step, get_clock_steps = 10,
       words_per_record = 2,
       communicate_Alltoall =
         (\<lambda>n send recv count. take (count div 2) send @ drop (count div 2) recv) \<rparr>"

text \<open>
  The state of that process with buffers of two slots and one pending spike for thread 0 of
  rank 0, with lag 1.
\<close>

definition one_pending_spike :: "spike_register rank_state" where
  "one_pending_spike =
     \<lparr> send_buffer_spike_data = [spike 7 0 0 0, spike 7 0 0 0],
       recv_buffer_spike_data = [spike 7 0 0 0, spike 7 0 0 0],
       spike_register_table =
         [\<lparr> entries = [(0, spike 0 1 2 1)], current = 0, previous = 0, saved = 0 \<rparr>],
       me_completed = False, others_completed = False, send_5g_calls = [],
       collocated = [], exchanges = [] \<rparr>"

text \<open>
  Two processes with two threads each; thread \<open>t\<close> is assigned the one rank \<open>t\<close>. The
  all-to-all of this kernel is not used.
\<close>

definition two_process_kernel :: kernel where
  "two_process_kernel =
     \<lparr> get_num_processes = 2, get_num_threads = 2,
       get_num_assigned_ranks_per_thread = (\<lambda>t. 1),
       get_start_rank_per_thread = (\<lambda>t. t),
       get_end_rank_per_thread = (\<lambda>t. Suc t),
       get_min_delay = 2, get_from_step = 0, get_clock_steps = 10,
       words_per_record = 2,
       communicate_Alltoall = (\<lambda>n send recv count. recv) \<rparr>"

definition three_pending_spikes :: spike_register where
  "three_pending_spikes =
     \<lparr> entries = [(0, spike 0 1 1 0), (1, spike 0 2 2 0), (0, spike 1 3 3 1)],
       current = 0, previous = 0, saved = 0 \<rparr>"


text \<open>
  The state of the process after the first round in which the pending spike was collocated
  and exchanged, with the value of \<^verbatim>\<open>others_completed\<close> and the calls of \<^verbatim>\<open>send_5g\<close> made.
\<close>

definition spike_sent :: "bool \<Rightarrow> send_5g_call list \<Rightarrow> spike_register rank_state" where
  "spike_sent others calls =
     \<lparr> send_buffer_spike_data = [spike 0 1 2 1, spike 1023 0 0 0],
       recv_buffer_spike_data = [spike 0 1 2 1, spike 1023 0 0 0],
       spike_register_table =
         [\<lparr> entries = [(0, spike 0 1 2 1)], current = 1, previous = 1, saved = 1 \<rparr>],
       me_completed = False, others_completed = others, send_5g_calls = calls,
       collocated = [(0, 0, 0, spike 0 1 2 1)],
       exchanges = [([spike 0 1 2 1, spike 1023 0 0 0], [spike 0 1 2 1, spike 1023 0 0 0])] \<rparr>"


text \<open>
  The states in which thread 0 and then thread 1 of the two processes leave the collocation
  of the three pending spikes into a send buffer of four slots.
\<close>

definition thread_0_done :: "spike_register collocate_state" where
  "thread_0_done =
     \<lparr> send_buffer = [spike 0 1 1 0, spike 1 3 3 1, spike 7 0 0 0, spike 7 0 0 0],
       send_buffer_offset = [2], sum_send_buffer_offset = 2, buffer_untouched = False,
       register = three_pending_spikes\<lparr> current := 3, previous := 1 \<rparr>,
       writes = [(0, 0, 0, spike 0 1 1 0), (1, 0, 1, spike 1 3 3 1)] \<rparr>"

definition thread_1_done :: "spike_register collocate_state" where
  "thread_1_done =
     \<lparr> send_buffer = [spike 0 1 1 0, spike 1 3 3 1, spike 0 2 2 0, spike 7 0 0 0],
       send_buffer_offset = [1], sum_send_buffer_offset = 1, buffer_untouched = False,
       register = three_pending_spikes\<lparr> current := 3, previous := 2 \<rparr>,
       writes = [(2, 1, 0, spike 0 2 2 0)] \<rparr>"










section \<open>Properties of the modulus engine\<close>

lemma length_fill_table: "length (fill_table f n table) = length table"
proof -
  have "length (fold (\<lambda>d t. t[d := f d]) ds table) = length table" for ds
    by (induction ds arbitrary: table) simp_all
  then show ?thesis by (simp add: fill_table_def)
qed

lemma fill_table_Suc:
  "fill_table f (Suc n) table = (fill_table f n table)[n := f n]"
  by (simp add: fill_table_def)

lemma fill_table_map:
  "n \<le> length table \<Longrightarrow> take n (fill_table f n table) = map f [0..<n]"
proof (induction n)
  case 0
  show ?case by simp
next
  case (Suc n)
  from Suc.prems have n: "n < length (fill_table f n table)"
    by (simp add: length_fill_table)
  have "take (Suc n) (fill_table f (Suc n) table)
      = take n (fill_table f n table) @ [f n]"
    using n by (simp add: fill_table_Suc take_Suc_conv_app_nth)
  with Suc show ?case by simp
qed

lemma fill_table_full:
  "length table = n \<Longrightarrow> fill_table f n table = map f [0..<n]"
  using fill_table_map [of n table f] by (simp add: length_fill_table)

lemma length_resize: "length (resize n v xs) = n"
  by (simp add: resize_def)

lemma long_of_id: "- (2 ^ 63) \<le> x \<Longrightarrow> x < 2 ^ 63 \<Longrightarrow> long_of x = x"
  by (simp add: long_of_def)

lemma window_id:
  "1 \<le> min_delay \<Longrightarrow> 1 \<le> max_delay \<Longrightarrow> min_delay + max_delay < 2 ^ 63
   \<Longrightarrow> window min_delay max_delay = min_delay + max_delay"
  by (simp add: window_def long_of_id)

lemma init_moduli_tables:
  assumes "1 \<le> min_delay" "1 \<le> max_delay" "min_delay + max_delay < 2 ^ 63"
  shows "init_moduli min_delay max_delay steps st =
     Inr \<lparr> moduli = map (modulus min_delay max_delay steps) [0..<nat (min_delay + max_delay)],
           slice_moduli = map (slice_modulus min_delay max_delay steps)
                            [0..<nat (min_delay + max_delay)] \<rparr>"
  using assms by (simp add: init_moduli_def Let_def fill_table_full length_resize window_id)

lemma smod_nonneg: "0 \<le> a \<Longrightarrow> 0 < b \<Longrightarrow> a smod b = a mod (b::int)"
  by (simp add: signed_modulo_int_def sgn_if)

lemma modulus_in_range:
  assumes mn: "1 \<le> min_delay" and mx: "1 \<le> max_delay" and st: "0 \<le> steps"
    and small: "steps + int d < 2 ^ 63" "min_delay + max_delay < 2 ^ 63"
  shows "modulus min_delay max_delay steps d = (steps + int d) mod (min_delay + max_delay)"
proof -
  have "long_of (steps + int d) = steps + int d"
    using st small(1) by (intro long_of_id) simp_all
  with mn mx st small(2) show ?thesis
    by (simp add: modulus_def window_id smod_nonneg)
qed

lemma rotate_moduli:
  assumes mn: "1 \<le> min_delay" and mx: "1 \<le> max_delay" and st: "0 \<le> steps"
    and small: "steps + min_delay + (min_delay + max_delay) < 2 ^ 63"
  shows "rotate_left (nat min_delay)
           (map (modulus min_delay max_delay steps) [0..<nat (min_delay + max_delay)])
       = map (modulus min_delay max_delay (steps + min_delay)) [0..<nat (min_delay + max_delay)]"
proof (rule nth_equalityI)
  show "length (rotate_left (nat min_delay)
           (map (modulus min_delay max_delay steps) [0..<nat (min_delay + max_delay)]))
      = length (map (modulus min_delay max_delay (steps + min_delay))
           [0..<nat (min_delay + max_delay)])"
    using mn mx by (simp add: rotate_left_def)
next
  fix i
  assume "i < length (rotate_left (nat min_delay)
           (map (modulus min_delay max_delay steps) [0..<nat (min_delay + max_delay)]))"
  then have i: "i < nat (min_delay + max_delay)"
    using mn mx by (simp add: rotate_left_def)
  let ?w = "min_delay + max_delay"
  have w: "0 < ?w" "?w < 2 ^ 63" using mn mx st small by simp_all
  have split: "nat ?w = nat min_delay + nat max_delay"
    using mn mx by (simp add: nat_add_distrib)
  have old: "modulus min_delay max_delay steps d = (steps + int d) mod ?w"
    if "d < nat ?w" for d
    using that small mn by (intro modulus_in_range [OF mn mx st _ w(2)]) simp
  have new: "modulus min_delay max_delay (steps + min_delay) d = (steps + min_delay + int d) mod ?w"
    if "d < nat ?w" for d
    using that small mn st by (intro modulus_in_range [OF mn mx _ _ w(2)]) simp_all
  show "rotate_left (nat min_delay)
           (map (modulus min_delay max_delay steps) [0..<nat ?w]) ! i
      = map (modulus min_delay max_delay (steps + min_delay)) [0..<nat ?w] ! i"
  proof (cases "i < nat max_delay")
    case True
    then have d: "nat min_delay + i < nat ?w" using split by simp
    from True have "rotate_left (nat min_delay)
           (map (modulus min_delay max_delay steps) [0..<nat ?w]) ! i
        = modulus min_delay max_delay steps (nat min_delay + i)"
      using i by (simp add: rotate_left_def nth_append split)
    also have "\<dots> = (steps + int (nat min_delay + i)) mod ?w"
      by (rule old [OF d])
    also have "\<dots> = (steps + min_delay + int i) mod ?w"
      using mn by (simp add: add.assoc)
    also have "\<dots> = modulus min_delay max_delay (steps + min_delay) i"
      by (rule new [OF i, symmetric])
    finally show ?thesis using i by simp
  next
    case False
    then have d: "i - nat max_delay < nat ?w" using i by simp
    from False have "rotate_left (nat min_delay)
           (map (modulus min_delay max_delay steps) [0..<nat ?w]) ! i
        = modulus min_delay max_delay steps (i - nat max_delay)"
      using i by (simp add: rotate_left_def nth_append split)
    also have "\<dots> = (steps + int (i - nat max_delay)) mod ?w"
      by (rule old [OF d])
    also have "\<dots> = (steps + (int i - max_delay)) mod ?w"
      using False mx by (simp add: of_nat_diff)
    also have "\<dots> = (steps + min_delay + int i - ?w) mod ?w"
      by (simp add: algebra_simps)
    also have "\<dots> = (steps + min_delay + int i) mod ?w"
      by (rule minus_mod_self2)
    also have "\<dots> = modulus min_delay max_delay (steps + min_delay) i"
      by (rule new [OF i, symmetric])
    finally show ?thesis using i by simp
  qed
qed

lemma update_moduli_after_init:
  assumes mn: "1 \<le> min_delay" and mx: "1 \<le> max_delay" and st: "0 \<le> steps"
    and small: "steps + min_delay + (min_delay + max_delay) < 2 ^ 63"
    and init: "init_moduli min_delay max_delay steps st0 = Inr st"
  shows "update_moduli min_delay max_delay (steps + min_delay) st
       = init_moduli min_delay max_delay (steps + min_delay) st1"
proof -
  let ?n = "nat (min_delay + max_delay)"
  have w: "min_delay + max_delay < 2 ^ 63" using mn st small by simp
  from init have tabs: "moduli st = map (modulus min_delay max_delay steps) [0..<?n]"
      "slice_moduli st = map (slice_modulus min_delay max_delay steps) [0..<?n]"
    using init_moduli_tables [OF mn mx w, of steps st0] by auto
  have win: "window min_delay max_delay = min_delay + max_delay"
    by (rule window_id [OF mn mx w])
  have sz: "to_size_t (min_delay + max_delay) = min_delay + max_delay"
    using mn mx w by (simp add: to_size_t_def)
  have "update_moduli min_delay max_delay (steps + min_delay) st
      = Inr \<lparr> moduli = rotate_left (nat min_delay) (moduli st),
              slice_moduli = fill_table (slice_modulus min_delay max_delay (steps + min_delay))
                          ?n (slice_moduli st) \<rparr>"
    using mn mx sz by (simp add: update_moduli_def tabs win)
  also have "rotate_left (nat min_delay) (moduli st)
      = map (modulus min_delay max_delay (steps + min_delay)) [0..<?n]"
    using rotate_moduli [OF mn mx st small] by (simp add: tabs)
  also have "fill_table (slice_modulus min_delay max_delay (steps + min_delay)) ?n (slice_moduli st)
      = map (slice_modulus min_delay max_delay (steps + min_delay)) [0..<?n]"
    by (rule fill_table_full) (simp add: tabs)
  finally show ?thesis
    using init_moduli_tables [OF mn mx w, of "steps + min_delay" st1] by simp
qed

text \<open>
  C2. For every delay window with \<open>min_delay \<ge> 1\<close> and \<open>max_delay \<ge> 1\<close> and a clock that starts
  at a non-negative step count, as long as no sum that the code forms overflows a \<^verbatim>\<open>long\<close>
  (the step count reached plus the window is below \<open>2 ^ 63\<close>): after \<^verbatim>\<open>init_moduli\<close> and any
  number \<open>n\<close> of slice advances, each advancing the clock by \<open>min_delay\<close> and calling
  \<^verbatim>\<open>update_moduli\<close>, both tables are equal to the tables that \<^verbatim>\<open>init_moduli\<close> computes afresh
  (from any earlier content \<open>st1\<close>) at the step count reached, hence equal at every offset
  \<open>d < min_delay + max_delay\<close>.
\<close>

theorem update_moduli_equals_init_moduli:
  assumes "1 \<le> min_delay" and "1 \<le> max_delay" and "0 \<le> steps"
    and "steps + int n * min_delay + (min_delay + max_delay) < 2 ^ 63"
    and "init_moduli min_delay max_delay steps st0 = Inr st"
  shows "advance_slices n min_delay max_delay steps st
       = init_moduli min_delay max_delay (steps + int n * min_delay) st1
     \<and> (\<exists>st'. advance_slices n min_delay max_delay steps st = Inr st'
          \<and> (\<forall>d < nat (min_delay + max_delay).
               moduli st' ! d = modulus min_delay max_delay (steps + int n * min_delay) d
             \<and> slice_moduli st' ! d
                 = slice_modulus min_delay max_delay (steps + int n * min_delay) d))"
proof -
  have w: "min_delay + max_delay < 2 ^ 63"
  proof -
    have "0 \<le> int n * min_delay" using assms(1) by simp
    with assms(3,4) show ?thesis by linarith
  qed
  have run: "advance_slices n min_delay max_delay steps st
       = init_moduli min_delay max_delay (steps + int n * min_delay) st1"
    using assms(3,4,5)
  proof (induction n arbitrary: steps st st0)
    case 0
    then show ?case
      using init_moduli_tables [OF assms(1,2) w] by simp
  next
    case (Suc n)
    have small: "steps + min_delay + (min_delay + max_delay) < 2 ^ 63"
    proof -
      have "0 \<le> int n * min_delay" using assms(1) by simp
      with Suc.prems(2) show ?thesis by (simp add: algebra_simps)
    qed
    have clock: "long_of (steps + min_delay) = steps + min_delay"
      using Suc.prems(1) assms(1,2) small by (intro long_of_id) simp_all
    have step: "update_moduli min_delay max_delay (steps + min_delay) st
        = init_moduli min_delay max_delay (steps + min_delay) st"
      by (rule update_moduli_after_init [OF assms(1,2) Suc.prems(1) small Suc.prems(3)])
    obtain st' where st': "init_moduli min_delay max_delay (steps + min_delay) st = Inr st'"
      using init_moduli_tables [OF assms(1,2) w] by blast
    have nonneg: "0 \<le> steps + min_delay"
      using Suc.prems(1) assms(1) by simp
    have bound: "steps + min_delay + int n * min_delay + (min_delay + max_delay) < 2 ^ 63"
      using Suc.prems(2) by (simp add: algebra_simps)
    have "advance_slices (Suc n) min_delay max_delay steps st
        = advance_slices n min_delay max_delay (steps + min_delay) st'"
      by (simp add: clock step st')
    also have "\<dots> = init_moduli min_delay max_delay (steps + min_delay + int n * min_delay) st1"
      by (rule Suc.IH [OF nonneg bound st'])
    finally show ?case
      by (simp add: algebra_simps)
  qed
  show ?thesis
    using run init_moduli_tables [OF assms(1,2) w, of "steps + int n * min_delay" st1]
    by simp
qed

theorem update_moduli_equals_init_moduli_witness:
  "advance_slices 1 3 5 0
     \<lparr> moduli = [0, 1, 2, 3, 4, 5, 6, 7], slice_moduli = [0, 0, 0, 1, 1, 1, 2, 2] \<rparr>
   = Inr \<lparr> moduli = [3, 4, 5, 6, 7, 0, 1, 2], slice_moduli = [1, 1, 1, 2, 2, 2, 0, 0] \<rparr>"
proof -
  have nb: "nbuff_of 3 5 = 3"
    by (simp add: nbuff_of_def window_def long_of_def)
  have up: "[0..<8] = [0, 1, 2, 3, 4, 5, 6, 7]"
    by (simp add: upt_conv_Cons)
  have init0: "init_moduli 3 5 0 \<lparr> moduli = [], slice_moduli = [] \<rparr>
      = Inr \<lparr> moduli = [0, 1, 2, 3, 4, 5, 6, 7], slice_moduli = [0, 0, 0, 1, 1, 1, 2, 2] \<rparr>"
    using init_moduli_tables [of 3 5 0 "\<lparr> moduli = [], slice_moduli = [] \<rparr>"]
    by (simp add: up modulus_def slice_modulus_def nb to_size_t_def window_def long_of_def
        signed_modulo_int_def signed_divide_int_def)
  have init3: "init_moduli 3 5 3 \<lparr> moduli = [], slice_moduli = [] \<rparr>
      = Inr \<lparr> moduli = [3, 4, 5, 6, 7, 0, 1, 2], slice_moduli = [1, 1, 1, 2, 2, 2, 0, 0] \<rparr>"
    using init_moduli_tables [of 3 5 3 "\<lparr> moduli = [], slice_moduli = [] \<rparr>"]
    by (simp add: up modulus_def slice_modulus_def nb to_size_t_def window_def long_of_def
        signed_modulo_int_def signed_divide_int_def)
  show ?thesis
    using update_moduli_equals_init_moduli [of 3 5 0 1 "\<lparr> moduli = [], slice_moduli = [] \<rparr>"
        "\<lparr> moduli = [0, 1, 2, 3, 4, 5, 6, 7], slice_moduli = [0, 0, 0, 1, 1, 1, 2, 2] \<rparr>"
        "\<lparr> moduli = [], slice_moduli = [] \<rparr>"]
      init0 init3
    by simp
qed

section \<open>Properties of \<^verbatim>\<open>deliver_events_5g_\<close>\<close>

lemma length_prepared_timestamps: "length (prepared_timestamps k) = nat (get_min_delay k)"
  by (simp add: prepared_timestamps_def)

lemma prepared_timestamps_nth:
  "l < nat (get_min_delay k) \<Longrightarrow> prepared_timestamps k ! l = get_clock_steps k + int l + 1"
  by (simp add: prepared_timestamps_def)

lemma deliver_loop_matching:
  "\<forall>sd\<in>set recv. tid sd = t \<longrightarrow> lag sd < length stamps \<Longrightarrow>
   deliver_loop t stamps recv (calls, b) =
     Inr (calls @ map (\<lambda>sd. (t, syn_index sd, lcid sd, stamps ! lag sd))
                    (filter (\<lambda>sd. tid sd = t) recv),
          b \<and> filter (\<lambda>sd. tid sd = t) recv = [])"
  by (induction recv arbitrary: calls b) simp_all

lemma deliver_loop_in_range:
  "deliver_loop t stamps recv (calls, b) = Inr res
   \<Longrightarrow> \<forall>sd\<in>set recv. tid sd = t \<longrightarrow> lag sd < length stamps"
  by (induction recv arbitrary: calls b) (auto split: if_splits)

lemma stamped_deliveries:
  assumes "\<forall>sd\<in>set recv. tid sd = t \<longrightarrow> lag sd < nat (get_min_delay k)"
  shows "map (\<lambda>sd. (t, syn_index sd, lcid sd, prepared_timestamps k ! lag sd))
           (filter (\<lambda>sd. tid sd = t) recv)
       = map (delivery k) (filter (\<lambda>sd. tid sd = t) recv)"
  using assms by (intro map_cong refl) (simp add: prepared_timestamps_nth delivery_def)

lemma deliver_events_5g_mid_slice:
  "get_from_step k > 0 \<Longrightarrow> deliver_events_5g k t recv = Inr ([], True)"
  by (simp add: deliver_events_5g_def)

lemma deliver_events_5g_slice_start:
  assumes run: "deliver_events_5g k t recv = Inr (calls, b)" and start: "\<not> get_from_step k > 0"
  shows "calls = map (delivery k) (filter (\<lambda>sd. tid sd = t) recv)
       \<and> b = (filter (\<lambda>sd. tid sd = t) recv = [])"
proof -
  from run start have loop: "deliver_loop t (prepared_timestamps k) recv ([], True) = Inr (calls, b)"
    by (simp add: deliver_events_5g_def split: if_splits)
  then have in_range: "\<forall>sd\<in>set recv. tid sd = t \<longrightarrow> lag sd < length (prepared_timestamps k)"
    by (rule deliver_loop_in_range)
  from loop deliver_loop_matching [OF in_range, of "[]" True]
  have "calls = map (\<lambda>sd. (t, syn_index sd, lcid sd, prepared_timestamps k ! lag sd))
                  (filter (\<lambda>sd. tid sd = t) recv)"
    and "b = (filter (\<lambda>sd. tid sd = t) recv = [])"
    by simp_all
  moreover from in_range have "\<forall>sd\<in>set recv. tid sd = t \<longrightarrow> lag sd < nat (get_min_delay k)"
    by (simp add: length_prepared_timestamps)
  ultimately show ?thesis
    by (simp add: stamped_deliveries)
qed

text \<open>
  C6. When \<^verbatim>\<open>get_from_step()\<close> is 0 (and the lag of every record for the thread is below
  \<open>min_delay\<close>, the size of the table of prepared time stamps), \<open>deliver_events_5g\<close> for thread
  \<open>t\<close> calls \<^verbatim>\<open>send_5g\<close> for exactly the records of the whole receive buffer whose \<^verbatim>\<open>tid\<close> is
  \<open>t\<close>, in the order of the buffer, each with the stamp clock + lag + 1, and returns whether
  there was none; when \<^verbatim>\<open>get_from_step()\<close> is greater than 0 it makes no call.
\<close>

theorem deliver_events_5g_forwards_own_records:
  "(get_from_step k = 0 \<and> 0 \<le> get_min_delay k
      \<and> (\<forall>sd\<in>set recv. tid sd = t \<longrightarrow> lag sd < nat (get_min_delay k))
     \<longrightarrow> deliver_events_5g k t recv =
           Inr (map (\<lambda>sd. (t, syn_index sd, lcid sd, get_clock_steps k + int (lag sd) + 1))
                  (filter (\<lambda>sd. tid sd = t) recv),
                filter (\<lambda>sd. tid sd = t) recv = []))
   \<and> (get_from_step k > 0 \<longrightarrow> deliver_events_5g k t recv = Inr ([], True))"
proof (intro conjI impI)
  assume a: "get_from_step k = 0 \<and> 0 \<le> get_min_delay k
      \<and> (\<forall>sd\<in>set recv. tid sd = t \<longrightarrow> lag sd < nat (get_min_delay k))"
  then have in_range: "\<forall>sd\<in>set recv. tid sd = t \<longrightarrow> lag sd < length (prepared_timestamps k)"
    by (simp add: length_prepared_timestamps)
  have "map (\<lambda>sd. (t, syn_index sd, lcid sd, prepared_timestamps k ! lag sd))
          (filter (\<lambda>sd. tid sd = t) recv)
      = map (\<lambda>sd. (t, syn_index sd, lcid sd, get_clock_steps k + int (lag sd) + 1))
          (filter (\<lambda>sd. tid sd = t) recv)"
    using a by (intro map_cong refl) (simp add: prepared_timestamps_nth)
  then show "deliver_events_5g k t recv =
           Inr (map (\<lambda>sd. (t, syn_index sd, lcid sd, get_clock_steps k + int (lag sd) + 1))
                  (filter (\<lambda>sd. tid sd = t) recv),
                filter (\<lambda>sd. tid sd = t) recv = [])"
    using a deliver_loop_matching [OF in_range, of "[]" True]
    by (simp add: deliver_events_5g_def)
next
  assume "get_from_step k > 0"
  then show "deliver_events_5g k t recv = Inr ([], True)"
    by (rule deliver_events_5g_mid_slice)
qed

theorem deliver_events_5g_forwards_own_records_witness:
  "deliver_events_5g (single_process_kernel 0) 0 [spike 0 3 7 1, spike 1 4 8 0, spike 0 5 9 0]
     = Inr ([(0, 3, 7, 12), (0, 5, 9, 11)], False)
   \<and> deliver_events_5g (single_process_kernel 1) 0 [spike 0 3 7 1] = Inr ([], True)"
  using deliver_events_5g_forwards_own_records
          [of "single_process_kernel 0" "[spike 0 3 7 1, spike 1 4 8 0, spike 0 5 9 0]" 0]
        deliver_events_5g_forwards_own_records
          [of "single_process_kernel 1" "[spike 0 3 7 1]" 0]
  by (simp add: single_process_kernel_def spike_def)


section \<open>Properties of \<^verbatim>\<open>distribute_target_data_buffers_\<close>\<close>

text \<open>
  C7. \<open>distribute_target_data_buffers\<close> calls \<^verbatim>\<open>add_target\<close>, with its thread id, for exactly
  the records of the receive buffer that are neither empty nor complete and whose \<^verbatim>\<open>gid\<close>
  is local to the rank (\<^verbatim>\<open>is_vp_local\<close>), in the order of the buffer: a record is forwarded if
  and only if it is in the buffer and passes the three tests.
\<close>

theorem distribute_target_data_buffers_filter:
  "distribute_target_data_buffers td is_vp_local t recv =
     map (Pair t) (filter (\<lambda>it. \<not> target_is_empty td it \<and> \<not> target_is_complete td it
                              \<and> is_vp_local (gid it)) recv)
   \<and> ((t', x) \<in> set (distribute_target_data_buffers td is_vp_local t recv)
        \<longleftrightarrow> t' = t \<and> x \<in> set recv \<and> \<not> target_is_empty td x \<and> \<not> target_is_complete td x
                 \<and> is_vp_local (gid x))"
proof -
  have eq: "distribute_target_data_buffers td is_vp_local t recv =
     map (Pair t) (filter (\<lambda>it. \<not> target_is_empty td it \<and> \<not> target_is_complete td it
                              \<and> is_vp_local (gid it)) recv)"
    by (induction recv) simp_all
  show ?thesis unfolding eq by auto
qed

theorem distribute_target_data_buffers_filter_witness:
  "distribute_target_data_buffers reserved_targets even 3
     [\<lparr> gid = 4, target = 1 \<rparr>, \<lparr> gid = 6, target = 9 \<rparr>, \<lparr> gid = 8, target = 2 \<rparr>,
      \<lparr> gid = 5, target = 9 \<rparr>]
   = [(3, \<lparr> gid = 6, target = 9 \<rparr>)]"
  using distribute_target_data_buffers_filter [of reserved_targets even 3
     "[\<lparr> gid = 4, target = 1 \<rparr>, \<lparr> gid = 6, target = 9 \<rparr>, \<lparr> gid = 8, target = 2 \<rparr>,
      \<lparr> gid = 5, target = 9 \<rparr>]"]
  by (simp add: reserved_targets_def)

section \<open>Properties of the segment size\<close>

lemma num_spike_data_per_rank_div:
  "num_spike_data_per_rank s p = s div p"
  by (simp add: num_spike_data_per_rank_def)

text \<open>
  C8, as the claim states it, fails: a buffer of 5 slots for 2 processes gets segments of 2
  slots, which cover 4 slots.
\<close>

theorem num_spike_data_per_rank_counterexample:
  "\<not> (\<forall>s p. 1 \<le> p \<longrightarrow> num_spike_data_per_rank s p * p = s)"
proof
  assume "\<forall>s p. 1 \<le> p \<longrightarrow> num_spike_data_per_rank s p * p = s"
  then have "num_spike_data_per_rank 5 2 * 2 = 5" by simp
  then show False by (simp add: num_spike_data_per_rank_div)
qed

text \<open>
  C8, amended. For every buffer size \<open>s\<close> and process count \<open>p \<ge> 1\<close> the segment size is the
  quotient \<open>s div p\<close> rounded down, and so is the record count of \<^verbatim>\<open>send_recv_count\<close>; the \<open>p\<close>
  segments lie inside the buffer, none reaches past its end, and they leave the last
  \<open>s mod p\<close> slots, fewer than \<open>p\<close>, outside every segment: they tile the buffer exactly when
  \<open>p\<close> divides \<open>s\<close>.
\<close>

theorem num_spike_data_per_rank_floor:
  assumes "1 \<le> p"
  shows "num_spike_data_per_rank s p = s div p
       \<and> num_spike_data_per_rank s p * p \<le> s
       \<and> s - num_spike_data_per_rank s p * p = s mod p
       \<and> s mod p < p
       \<and> (num_spike_data_per_rank s p * p = s \<longleftrightarrow> p dvd s)
       \<and> (\<forall>r < p. (r + 1) * num_spike_data_per_rank s p \<le> s)
       \<and> (get_num_processes k = p
            \<longrightarrow> send_recv_count k s = words_per_record k * (s div p))"
proof -
  have le: "(r + 1) * (s div p) \<le> s" if "r < p" for r
  proof -
    have "(r + 1) * (s div p) \<le> p * (s div p)"
      using that by (intro mult_right_mono) simp_all
    also have "\<dots> \<le> s" by simp
    finally show ?thesis .
  qed
  have "s - s div p * p = s mod p"
    by (simp add: minus_div_mult_eq_mod)
  moreover have "(s div p * p = s) = (p dvd s)"
    by (metis dvd_div_mult_self dvd_triv_right)
  ultimately show ?thesis
    using assms le by (simp add: num_spike_data_per_rank_div send_recv_count_def)
qed

theorem num_spike_data_per_rank_floor_witness:
  "num_spike_data_per_rank 5 2 = 2 \<and> num_spike_data_per_rank 5 2 * 2 \<le> 5
   \<and> 5 - num_spike_data_per_rank 5 2 * 2 = (1::nat)
   \<and> num_spike_data_per_rank 6 2 * 2 = 6
   \<and> send_recv_count two_process_kernel 5 = 4"
  using num_spike_data_per_rank_floor [of 2 5 two_process_kernel]
        num_spike_data_per_rank_floor [of 2 6 two_process_kernel]
  by (simp add: two_process_kernel_def)


section \<open>Properties of \<^verbatim>\<open>collocate_spike_data_buffers_\<close>\<close>

lemma collocate_body_cases:
  assumes "collocate_body ops m n a b st = Inr (out, st')"
  obtains
    (none) r where "get_next_spike_data ops (register st) a b = (None, r)"
      "st' = st\<lparr>register := r\<rparr>" "out = Return (buffer_untouched st)"
  | (written) rank sd r off where
      "get_next_spike_data ops (register st) a b = (Some (rank, sd), r)"
      "a \<le> rank" "rank - a < length (send_buffer_offset st)"
      "off = send_buffer_offset st ! (rank - a)" "off < m"
      "rank * m + off < length (send_buffer st)"
      "st' = st\<lparr> send_buffer := (send_buffer st)[rank * m + off := sd],
                  send_buffer_offset := (send_buffer_offset st)[rank - a := Suc off],
                  sum_send_buffer_offset := Suc (sum_send_buffer_offset st),
                  buffer_untouched := False,
                  register := r,
                  writes := writes st @ [(rank * m + off, rank, off, sd)] \<rparr>"
      "out = (if Suc (sum_send_buffer_offset st) = m * n then Return False else Continue)"
  | (reject) rank sd r where
      "get_next_spike_data ops (register st) a b = (Some (rank, sd), r)"
      "a \<le> rank" "rank - a < length (send_buffer_offset st)"
      "\<not> send_buffer_offset st ! (rank - a) < m"
      "st' = st\<lparr> register := save_entry_point ops (reject_last_spike_data ops r) \<rparr>"
      "out = (if sum_send_buffer_offset st = m * n then Return (buffer_untouched st)
              else Continue)"
proof (cases "get_next_spike_data ops (register st) a b")
  case (Pair res r)
  show ?thesis
  proof (cases res)
    case None
    with Pair assms none show ?thesis
      by (simp add: collocate_body_def)
  next
    case (Some p)
    obtain rank sd where p: "p = (rank, sd)" by (cases p)
    from assms Pair Some p have ok: "a \<le> rank" "rank - a < length (send_buffer_offset st)"
      by (auto simp: collocate_body_def split: if_splits)
    show ?thesis
    proof (cases "send_buffer_offset st ! (rank - a) < m")
      case True
      with assms Pair Some p ok show ?thesis
        by (intro written [of rank sd r "send_buffer_offset st ! (rank - a)"])
           (auto simp: collocate_body_def Let_def split: if_splits)
    next
      case False
      with assms Pair Some p ok show ?thesis
        by (intro reject [of rank sd r])
           (auto simp: collocate_body_def Let_def split: if_splits)
    qed
  qed
qed

lemma collocate_body_writes:
  assumes pulled: "\<forall>r rank sd r'. get_next_spike_data ops r a b = (Some (rank, sd), r')
                      \<longrightarrow> a \<le> rank \<and> rank < b"
    and body: "collocate_body ops m n a b st = Inr (out, st')"
    and inv: "writes_in_segments m a b (length (send_buffer st)) (writes st)"
  shows "length (send_buffer st') = length (send_buffer st)
       \<and> length (send_buffer_offset st') = length (send_buffer_offset st)
       \<and> writes_in_segments m a b (length (send_buffer st')) (writes st')"
  using body
proof (cases rule: collocate_body_cases)
  case (none r)
  with inv show ?thesis by simp
next
  case (written rank sd r off)
  from pulled written(1) have "a \<le> rank \<and> rank < b" by blast
  with written inv show ?thesis
    by (simp add: writes_in_segments_def)
next
  case (reject rank sd r)
  with inv show ?thesis by simp
qed

lemma collocate_body_no_error:
  assumes pulled: "\<forall>r rank sd r'. get_next_spike_data ops r a b = (Some (rank, sd), r')
                      \<longrightarrow> a \<le> rank \<and> rank < b"
    and ranks: "b \<le> p" "b - a \<le> length (send_buffer_offset st)"
    and size: "m * p \<le> length (send_buffer st)"
  shows "collocate_body ops m n a b st \<noteq> Inl e"
proof (cases "get_next_spike_data ops (register st) a b")
  case (Pair res r)
  show ?thesis
  proof (cases res)
    case None
    with Pair show ?thesis by (simp add: collocate_body_def)
  next
    case (Some q)
    obtain rank sd where q: "q = (rank, sd)" by (cases q)
    from pulled Pair Some q have rk: "a \<le> rank" "rank < b" by blast+
    have idx: "rank * m + off < length (send_buffer st)" if "off < m" for off
    proof -
      have "rank * m + off < Suc rank * m" using that by simp
      also have "\<dots> \<le> p * m"
        using rk ranks by (intro mult_right_mono) simp_all
      also have "\<dots> \<le> length (send_buffer st)" using size by (simp add: mult.commute)
      finally show ?thesis .
    qed
    from rk ranks have "rank - a < length (send_buffer_offset st)" by simp
    with Pair Some q rk idx [of "send_buffer_offset st ! (rank - a)"] show ?thesis
      by (auto simp: collocate_body_def Let_def)
  qed
qed

lemma collocate_loop_writes:
  assumes pulled: "\<forall>r rank sd r'. get_next_spike_data ops r a b = (Some (rank, sd), r')
                      \<longrightarrow> a \<le> rank \<and> rank < b"
  shows "collocate_loop fuel ops m n a b st = Some (Inr (res, st'))
     \<Longrightarrow> writes_in_segments m a b (length (send_buffer st)) (writes st)
     \<Longrightarrow> length (send_buffer st') = length (send_buffer st)
       \<and> writes_in_segments m a b (length (send_buffer st')) (writes st')"
proof (induction fuel arbitrary: st)
  case 0
  then show ?case by simp
next
  case (Suc fuel)
  show ?case
  proof (cases "collocate_body ops m n a b st")
    case (Inl e)
    with Suc.prems show ?thesis by simp
  next
    case (Inr q)
    obtain out st1 where q: "q = (out, st1)" by (cases q)
    note step = collocate_body_writes [OF pulled Inr [unfolded q] Suc.prems(2)]
    show ?thesis
    proof (cases out)
      case Continue
      with Suc.prems Inr q have "collocate_loop fuel ops m n a b st1 = Some (Inr (res, st'))"
        by simp
      moreover from step have "writes_in_segments m a b (length (send_buffer st1)) (writes st1)"
        by (elim conjE)
      ultimately have "length (send_buffer st') = length (send_buffer st1)
         \<and> writes_in_segments m a b (length (send_buffer st')) (writes st')"
        by (rule Suc.IH)
      with step show ?thesis by (elim conjE) simp
    next
      case (Return x)
      with Suc.prems Inr q step show ?thesis by auto
    qed
  qed
qed

lemma collocate_loop_no_error:
  assumes pulled: "\<forall>r rank sd r'. get_next_spike_data ops r a b = (Some (rank, sd), r')
                      \<longrightarrow> a \<le> rank \<and> rank < b"
    and ranks: "b \<le> p"
  shows "b - a \<le> length (send_buffer_offset st) \<Longrightarrow> m * p \<le> length (send_buffer st)
     \<Longrightarrow> writes_in_segments m a b (length (send_buffer st)) (writes st)
     \<Longrightarrow> collocate_loop fuel ops m n a b st \<noteq> Some (Inl e)"
proof (induction fuel arbitrary: st)
  case 0
  then show ?case by simp
next
  case (Suc fuel)
  show ?case
  proof (cases "collocate_body ops m n a b st")
    case (Inl e')
    with collocate_body_no_error [OF pulled ranks Suc.prems(1,2)] show ?thesis by blast
  next
    case (Inr q)
    obtain out st1 where q: "q = (out, st1)" by (cases q)
    note step = collocate_body_writes [OF pulled Inr [unfolded q] Suc.prems(3)]
    show ?thesis
    proof (cases out)
      case Continue
      from step Suc.prems have "b - a \<le> length (send_buffer_offset st1)"
        "m * p \<le> length (send_buffer st1)"
        "writes_in_segments m a b (length (send_buffer st1)) (writes st1)"
        by (elim conjE, simp)+
      then have "collocate_loop fuel ops m n a b st1 \<noteq> Some (Inl e)"
        by (rule Suc.IH)
      with Continue Inr q show ?thesis by simp
    next
      case (Return x)
      with Inr q show ?thesis by simp
    qed
  qed
qed

lemma segment_index_apart:
  fixes rank1 rank2 off1 off2 m :: nat
  assumes "off1 < m" "off2 < m" "rank1 \<noteq> rank2"
  shows "rank1 * m + off1 \<noteq> rank2 * m + off2"
proof
  assume eq: "rank1 * m + off1 = rank2 * m + off2"
  have "(rank1 * m + off1) div m = rank1" "(rank2 * m + off2) div m = rank2"
    using assms by simp_all
  with eq assms(3) show False by simp
qed

lemma writes_in_segmentsD:
  assumes "writes_in_segments m a b len ws" and "(idx, rank, off, x) \<in> set ws"
  shows "idx = rank * m + off" and "off < m" and "a \<le> rank" and "rank < b" and "idx < len"
proof -
  from assms have "case (idx, rank, off, x) of (idx, rank, off, sd) \<Rightarrow>
      idx = rank * m + off \<and> off < m \<and> a \<le> rank \<and> rank < b \<and> idx < len"
    unfolding writes_in_segments_def by (rule bspec)
  then show "idx = rank * m + off" and "off < m" and "a \<le> rank" and "rank < b"
    and "idx < len"
    by simp_all
qed

lemma segments_apart:
  assumes "writes_in_segments m a1 b1 len ws1" "writes_in_segments m a2 b2 len' ws2"
    and "b1 \<le> a2 \<or> b2 \<le> a1"
  shows "fst ` set ws1 \<inter> fst ` set ws2 = {}"
proof -
  have "fst w1 \<noteq> fst w2" if w: "w1 \<in> set ws1" "w2 \<in> set ws2" for w1 w2
  proof -
    obtain i1 r1 o1 x1 where w1: "w1 = (i1, r1, o1, x1)" by (cases w1)
    obtain i2 r2 o2 x2 where w2: "w2 = (i2, r2, o2, x2)" by (cases w2)
    note f1 = writes_in_segmentsD [OF assms(1) w(1) [unfolded w1]]
    note f2 = writes_in_segmentsD [OF assms(2) w(2) [unfolded w2]]
    from assms(3) f1(3,4) f2(3,4) have "r1 \<noteq> r2" by linarith
    from segment_index_apart [OF f1(2) f2(2) this] show ?thesis
      by (simp add: w1 w2 f1(1) f2(1))
  qed
  then show ?thesis by (auto simp: image_iff)
qed

lemma register_get_next_in_range:
  assumes "register_get_next r a b = (Some (rank, sd), r')"
  shows "a \<le> rank \<and> rank < b"
proof -
  let ?xs = "drop (current r) (entries r)"
  let ?n = "length (takeWhile (\<lambda>e. \<not> in_rank_range a b e) ?xs)"
  from assms have i: "current r + ?n < length (entries r)"
    and e: "entries r ! (current r + ?n) = (rank, sd)"
    by (auto simp: register_get_next_def Let_def split: if_splits)
  from i have "?n < length ?xs" by simp
  then have "\<not> \<not> in_rank_range a b (?xs ! ?n)"
    by (rule nth_length_takeWhile)
  moreover from i have "?xs ! ?n = entries r ! (current r + ?n)" by simp
  ultimately show ?thesis using e by (simp add: in_rank_range_def)
qed









lemma thread_0_collocation:
  "collocate_spike_data_buffers 3 two_process_kernel checkpointed_register 0
     (replicate 4 (spike 7 0 0 0)) three_pending_spikes = Some (Inr (False, thread_0_done))"
  by code_simp

lemma thread_1_collocation:
  "collocate_spike_data_buffers 3 two_process_kernel checkpointed_register 1
     (send_buffer thread_0_done) three_pending_spikes = Some (Inr (False, thread_1_done))"
  by code_simp

text \<open>
  C9. Let every record that \<^verbatim>\<open>get_next_spike_data\<close> gives for a range of ranks be for a rank
  of that range. Then every write of a call of \<open>collocate_spike_data_buffers\<close> that returns
  is at an index \<open>target_rank * m + offset\<close> with \<open>offset < m\<close>, \<open>m\<close> the segment size, for a
  rank between the thread's \<^verbatim>\<open>rank_start\<close> and \<^verbatim>\<open>rank_end\<close>, inside the send buffer, whose
  length stays; when the thread's \<^verbatim>\<open>rank_end\<close> is at most the process count and its offset
  vector covers its ranks, no call reads or writes out of range; and two calls for threads
  with disjoint rank ranges write at different indices.
\<close>

theorem collocate_spike_data_buffers_writes_own_segments:
  assumes pulled: "\<forall>a b r rank sd r'. get_next_spike_data ops r a b = (Some (rank, sd), r')
                      \<longrightarrow> a \<le> rank \<and> rank < b"
  shows "(collocate_spike_data_buffers fuel k ops t send_buf r = Some (Inr (res, st))
          \<longrightarrow> length (send_buffer st) = length send_buf
            \<and> (\<forall>(idx, rank, off, sd)\<in>set (writes st).
                  idx = rank * num_spike_data_per_rank (length send_buf) (get_num_processes k) + off
                  \<and> off < num_spike_data_per_rank (length send_buf) (get_num_processes k)
                  \<and> get_start_rank_per_thread k t \<le> rank \<and> rank < get_end_rank_per_thread k t
                  \<and> idx < length send_buf))
       \<and> (1 \<le> get_num_processes k \<and> get_end_rank_per_thread k t \<le> get_num_processes k
            \<and> get_end_rank_per_thread k t - get_start_rank_per_thread k t
                 \<le> get_num_assigned_ranks_per_thread k t
          \<longrightarrow> collocate_spike_data_buffers fuel k ops t send_buf r \<noteq> Some (Inl e))
       \<and> (collocate_spike_data_buffers fuel k ops t send_buf r = Some (Inr (res, st))
            \<and> collocate_spike_data_buffers fuel' k ops t' send_buf' r' = Some (Inr (res', st'))
            \<and> length send_buf' = length send_buf
            \<and> (get_end_rank_per_thread k t \<le> get_start_rank_per_thread k t'
                 \<or> get_end_rank_per_thread k t' \<le> get_start_rank_per_thread k t)
          \<longrightarrow> fst ` set (writes st) \<inter> fst ` set (writes st') = {})"
proof -
  let ?m = "\<lambda>buf. num_spike_data_per_rank (length buf) (get_num_processes k)"
  have pulled': "\<forall>r rank sd r'. get_next_spike_data ops r a b = (Some (rank, sd), r')
                      \<longrightarrow> a \<le> rank \<and> rank < b" for a b
    using pulled by blast
  have one: "length (send_buffer st) = length send_buf
       \<and> writes_in_segments (?m send_buf) (get_start_rank_per_thread k t)
            (get_end_rank_per_thread k t) (length send_buf) (writes st)"
    if run: "collocate_spike_data_buffers fuel k ops t send_buf r = Some (Inr (res, st))"
    for fuel t send_buf r res st
  proof (cases "get_start_rank_per_thread k t \<noteq> get_end_rank_per_thread k t")
    case True
    with run have "collocate_loop fuel ops (?m send_buf) (get_num_assigned_ranks_per_thread k t)
        (get_start_rank_per_thread k t) (get_end_rank_per_thread k t)
        \<lparr> send_buffer = send_buf,
          send_buffer_offset = replicate (get_num_assigned_ranks_per_thread k t) 0,
          sum_send_buffer_offset = 0, buffer_untouched = True, register = r, writes = [] \<rparr>
        = Some (Inr (res, st))"
      by (simp add: collocate_spike_data_buffers_def Let_def split: if_splits)
    moreover have "writes_in_segments (?m send_buf) (get_start_rank_per_thread k t)
        (get_end_rank_per_thread k t)
        (length (send_buffer \<lparr> send_buffer = send_buf,
          send_buffer_offset = replicate (get_num_assigned_ranks_per_thread k t) 0,
          sum_send_buffer_offset = 0, buffer_untouched = True, register = r, writes = [] \<rparr>))
        (writes \<lparr> send_buffer = send_buf,
          send_buffer_offset = replicate (get_num_assigned_ranks_per_thread k t) 0,
          sum_send_buffer_offset = 0, buffer_untouched = True, register = r, writes = [] \<rparr>)"
      by (simp add: writes_in_segments_def)
    ultimately have "length (send_buffer st) = length (send_buffer \<lparr> send_buffer = send_buf,
          send_buffer_offset = replicate (get_num_assigned_ranks_per_thread k t) 0,
          sum_send_buffer_offset = 0, buffer_untouched = True, register = r, writes = [] \<rparr>)
       \<and> writes_in_segments (?m send_buf) (get_start_rank_per_thread k t)
            (get_end_rank_per_thread k t) (length (send_buffer st)) (writes st)"
      by (rule collocate_loop_writes [OF pulled'])
    then show ?thesis by (elim conjE) simp
  next
    case False
    with run show ?thesis
      by (auto simp: collocate_spike_data_buffers_def Let_def writes_in_segments_def
          split: if_splits)
  qed
  have first: "collocate_spike_data_buffers fuel k ops t send_buf r = Some (Inr (res, st))
          \<longrightarrow> length (send_buffer st) = length send_buf
            \<and> (\<forall>(idx, rank, off, sd)\<in>set (writes st).
                  idx = rank * ?m send_buf + off \<and> off < ?m send_buf
                  \<and> get_start_rank_per_thread k t \<le> rank \<and> rank < get_end_rank_per_thread k t
                  \<and> idx < length send_buf)"
    using one [of fuel t send_buf r res st] by (simp add: writes_in_segments_def)
  have second: "collocate_spike_data_buffers fuel k ops t send_buf r \<noteq> Some (Inl e)"
    if h: "1 \<le> get_num_processes k \<and> get_end_rank_per_thread k t \<le> get_num_processes k
            \<and> get_end_rank_per_thread k t - get_start_rank_per_thread k t
                 \<le> get_num_assigned_ranks_per_thread k t"
  proof (cases "get_start_rank_per_thread k t \<noteq> get_end_rank_per_thread k t")
    case True
    have "collocate_loop fuel ops (?m send_buf) (get_num_assigned_ranks_per_thread k t)
        (get_start_rank_per_thread k t) (get_end_rank_per_thread k t)
        \<lparr> send_buffer = send_buf,
          send_buffer_offset = replicate (get_num_assigned_ranks_per_thread k t) 0,
          sum_send_buffer_offset = 0, buffer_untouched = True, register = r, writes = [] \<rparr>
        \<noteq> Some (Inl e)"
      using h
      by (intro collocate_loop_no_error [OF pulled', of _ "get_num_processes k"])
         (simp_all add: writes_in_segments_def num_spike_data_per_rank_div)
    with True h show ?thesis
      by (simp add: collocate_spike_data_buffers_def Let_def)
  next
    case False
    with h show ?thesis
      by (simp add: collocate_spike_data_buffers_def Let_def)
  qed
  have third: "fst ` set (writes st) \<inter> fst ` set (writes st') = {}"
    if h: "collocate_spike_data_buffers fuel k ops t send_buf r = Some (Inr (res, st))
            \<and> collocate_spike_data_buffers fuel' k ops t' send_buf' r' = Some (Inr (res', st'))
            \<and> length send_buf' = length send_buf
            \<and> (get_end_rank_per_thread k t \<le> get_start_rank_per_thread k t'
                 \<or> get_end_rank_per_thread k t' \<le> get_start_rank_per_thread k t)"
  proof -
    from h have w1: "writes_in_segments (?m send_buf) (get_start_rank_per_thread k t)
            (get_end_rank_per_thread k t) (length send_buf) (writes st)"
      using one [of fuel t send_buf r res st] by blast
    from h have w2: "writes_in_segments (?m send_buf') (get_start_rank_per_thread k t')
            (get_end_rank_per_thread k t') (length send_buf') (writes st')"
      using one [of fuel' t' send_buf' r' res' st'] by blast
    from h have len: "length send_buf' = length send_buf" and
      apart: "get_end_rank_per_thread k t \<le> get_start_rank_per_thread k t'
                 \<or> get_end_rank_per_thread k t' \<le> get_start_rank_per_thread k t"
      by blast+
    from w2 have w2': "writes_in_segments (?m send_buf) (get_start_rank_per_thread k t')
            (get_end_rank_per_thread k t') (length send_buf') (writes st')"
      by (simp add: len)
    from w1 w2' apart show ?thesis
      by (rule segments_apart)
  qed
  from first second third show ?thesis by blast
qed

theorem collocate_spike_data_buffers_writes_own_segments_witness:
  "collocate_spike_data_buffers 3 two_process_kernel checkpointed_register 0
     (replicate 4 (spike 7 0 0 0)) three_pending_spikes = Some (Inr (False, thread_0_done))
   \<and> collocate_spike_data_buffers 3 two_process_kernel checkpointed_register 1
     (send_buffer thread_0_done) three_pending_spikes = Some (Inr (False, thread_1_done))
   \<and> map fst (writes thread_0_done) = [0, 1] \<and> map fst (writes thread_1_done) = [2]
   \<and> length (send_buffer thread_1_done) = 4
   \<and> fst ` set (writes thread_0_done) \<inter> fst ` set (writes thread_1_done) = {}"
proof -
  have pulled: "\<forall>a b r rank sd r'.
      get_next_spike_data checkpointed_register r a b = (Some (rank, sd), r')
        \<longrightarrow> a \<le> rank \<and> rank < b"
    using register_get_next_in_range by (simp add: checkpointed_register_def)
  have ranges: "get_end_rank_per_thread two_process_kernel 0
                  \<le> get_start_rank_per_thread two_process_kernel 1"
    by (simp add: two_process_kernel_def)
  have len: "length (send_buffer thread_0_done) = length (replicate 4 (spike 7 0 0 0))"
    by (simp add: thread_0_done_def)
  from collocate_spike_data_buffers_writes_own_segments [OF pulled,
      where fuel = 3 and k = two_process_kernel and t = 0
        and send_buf = "replicate 4 (spike 7 0 0 0)" and r = three_pending_spikes
        and res = False and st = thread_0_done
        and fuel' = 3 and t' = 1 and send_buf' = "send_buffer thread_0_done"
        and r' = three_pending_spikes and res' = False and st' = thread_1_done]
    thread_0_collocation thread_1_collocation ranges len
  have "fst ` set (writes thread_0_done) \<inter> fst ` set (writes thread_1_done) = {}"
    by blast
  with thread_0_collocation thread_1_collocation show ?thesis
    by (simp add: thread_0_done_def thread_1_done_def)
qed















section \<open>Properties of the rounds of \<^verbatim>\<open>gather_spike_data\<close>\<close>

lemma collocate_threads_frame:
  "collocate_threads fuel k ops ts st = Some (Inr st')
   \<Longrightarrow> others_completed st' = others_completed st
       \<and> send_5g_calls st' = send_5g_calls st
       \<and> recv_buffer_spike_data st' = recv_buffer_spike_data st"
proof (induction ts arbitrary: st)
  case Nil
  then show ?case by simp
next
  case (Cons t ts)
  then show ?case
    by (auto split: if_splits option.splits sum.splits prod.splits)
qed

lemma round_begin_frame:
  "others_completed (round_begin k ops sd st) = True
   \<and> send_5g_calls (round_begin k ops sd st) = send_5g_calls st
   \<and> recv_buffer_spike_data (round_begin k ops sd st) = recv_buffer_spike_data st"
  by (simp add: round_begin_def Let_def)

lemma round_reprepare_frame:
  "others_completed (round_reprepare sd st) = others_completed st
   \<and> send_5g_calls (round_reprepare sd st) = send_5g_calls st
   \<and> me_completed (round_reprepare sd st) = me_completed st"
  by (simp add: round_reprepare_def)

lemma round_exchange_frame:
  "others_completed (round_exchange k ops n st) = others_completed st
   \<and> send_5g_calls (round_exchange k ops n st) = send_5g_calls st
   \<and> me_completed (round_exchange k ops n st) = me_completed st"
  by (simp add: round_exchange_def Let_def)

lemma gather_round_stages:
  assumes "gather_round fuel k ops sd n st = Some (Inr st')"
  obtains st2 where
    "collocate_threads fuel k ops [0..<get_num_threads k] (round_begin k ops sd st)
       = Some (Inr st2)"
    "deliver_threads k [0..<get_num_threads k] (round_exchange k ops n (round_reprepare sd st2))
       = Inr st'"
  using assms
  by (auto simp: gather_round_def split: if_splits option.splits sum.splits)

lemma exchanged_flags:
  assumes "collocate_threads fuel k ops ts (round_begin k ops sd st) = Some (Inr st2)"
  shows "others_completed (round_exchange k ops n (round_reprepare sd st2)) = True
       \<and> send_5g_calls (round_exchange k ops n (round_reprepare sd st2)) = send_5g_calls st"
  using collocate_threads_frame [OF assms]
  by (simp add: round_exchange_frame round_reprepare_frame round_begin_frame)

lemma deliver_threads_mid_slice:
  "get_from_step k > 0 \<Longrightarrow> deliver_threads k ts st = Inr st"
  by (induction ts arbitrary: st) (simp_all add: deliver_events_5g_mid_slice)

lemma deliver_threads_slice_start:
  "deliver_threads k ts st = Inr st' \<Longrightarrow> \<not> get_from_step k > 0
   \<Longrightarrow> send_5g_calls st' = send_5g_calls st
         @ concat (map (\<lambda>t. map (delivery k)
                              (filter (\<lambda>x. tid x = t) (recv_buffer_spike_data st))) ts)
       \<and> others_completed st'
           = (others_completed st \<and> (\<forall>x\<in>set (recv_buffer_spike_data st). tid x \<notin> set ts))
       \<and> recv_buffer_spike_data st' = recv_buffer_spike_data st"
proof (induction ts arbitrary: st)
  case Nil
  then show ?case by simp
next
  case (Cons t ts)
  from Cons.prems(1) obtain calls b where
    one: "deliver_events_5g k t (recv_buffer_spike_data st) = Inr (calls, b)"
    and rest: "deliver_threads k ts
                 (st\<lparr> send_5g_calls := send_5g_calls st @ calls,
                       others_completed := (others_completed st \<and> b) \<rparr>) = Inr st'"
    by (auto split: sum.splits)
  from deliver_events_5g_slice_start [OF one Cons.prems(2)]
  have calls: "calls = map (delivery k) (filter (\<lambda>x. tid x = t) (recv_buffer_spike_data st))"
    and b: "b = (filter (\<lambda>x. tid x = t) (recv_buffer_spike_data st) = [])"
    by simp_all
  from b have b': "b = (\<forall>x\<in>set (recv_buffer_spike_data st). tid x \<noteq> t)"
    by (simp add: filter_empty_conv)
  from Cons.IH [OF rest Cons.prems(2)] show ?case
    by (auto simp: calls b')
qed

lemma gather_round_mid_slice:
  assumes mid: "get_from_step k > 0" and run: "gather_round fuel k ops sd n st = Some (Inr st')"
  shows "others_completed st' \<and> send_5g_calls st' = send_5g_calls st"
proof -
  from run obtain st2 where
    c: "collocate_threads fuel k ops [0..<get_num_threads k] (round_begin k ops sd st)
          = Some (Inr st2)"
    and d: "deliver_threads k [0..<get_num_threads k]
              (round_exchange k ops n (round_reprepare sd st2)) = Inr st'"
    by (rule gather_round_stages)
  from d have "st' = round_exchange k ops n (round_reprepare sd st2)"
    by (simp add: deliver_threads_mid_slice [OF mid])
  with exchanged_flags [OF c] show ?thesis by simp
qed

lemma gather_round_slice_start:
  assumes start: "\<not> get_from_step k > 0"
    and run: "gather_round fuel k ops sd n st = Some (Inr st')"
  shows "send_5g_calls st' = send_5g_calls st
         @ concat (map (\<lambda>t. map (delivery k)
                              (filter (\<lambda>x. tid x = t) (recv_buffer_spike_data st')))
                     [0..<get_num_threads k])
       \<and> others_completed st'
           = (\<forall>x\<in>set (recv_buffer_spike_data st'). \<not> tid x < get_num_threads k)"
proof -
  from run obtain st2 where
    c: "collocate_threads fuel k ops [0..<get_num_threads k] (round_begin k ops sd st)
          = Some (Inr st2)"
    and d: "deliver_threads k [0..<get_num_threads k]
              (round_exchange k ops n (round_reprepare sd st2)) = Inr st'"
    by (rule gather_round_stages)
  from deliver_threads_slice_start [OF d start] exchanged_flags [OF c]
  show ?thesis by simp
qed

lemma mid_slice_round:
  "gather_round 3 (single_process_kernel 1) checkpointed_register reserved_thread_ids 0
     one_pending_spike = Some (Inr (spike_sent True []))"
  by code_simp

lemma slice_start_round:
  "gather_round 3 (single_process_kernel 0) checkpointed_register reserved_thread_ids 0
     one_pending_spike = Some (Inr (spike_sent False [(0, 1, 2, 12)]))"
  by code_simp


text \<open>
  C10. When \<^verbatim>\<open>get_from_step()\<close> is greater than 0, \<open>deliver_events_5g\<close> returns true for
  every thread id and every receive buffer, and makes no call of \<^verbatim>\<open>send_5g\<close>; so a round that
  returns in a mid-slice call ends with \<^verbatim>\<open>others_completed\<close> true and has forwarded nothing.
\<close>

theorem deliver_events_5g_mid_slice_completed:
  assumes "get_from_step k > 0"
  shows "deliver_events_5g k t recv = Inr ([], True)
       \<and> (gather_round fuel k ops sd n st = Some (Inr st')
            \<longrightarrow> others_completed st' \<and> send_5g_calls st' = send_5g_calls st)"
  using assms deliver_events_5g_mid_slice [of k t recv] gather_round_mid_slice [of k fuel ops sd n st st']
  by blast

theorem deliver_events_5g_mid_slice_completed_witness:
  "deliver_events_5g (single_process_kernel 1) 0 [spike 0 1 2 1, spike 0 3 4 0] = Inr ([], True)
   \<and> gather_round 3 (single_process_kernel 1) checkpointed_register reserved_thread_ids
        0 one_pending_spike = Some (Inr (spike_sent True []))
   \<and> others_completed (spike_sent True [])
   \<and> send_5g_calls (spike_sent True []) = send_5g_calls one_pending_spike"
proof -
  have mid: "get_from_step (single_process_kernel 1) > 0"
    by (simp add: single_process_kernel_def)
  from deliver_events_5g_mid_slice_completed [OF mid,
      of 0 "[spike 0 1 2 1, spike 0 3 4 0]" 3 checkpointed_register reserved_thread_ids 0
         one_pending_spike "spike_sent True []"]
    mid_slice_round
  show ?thesis by blast
qed

text \<open>
  C3, as the claim states it, fails: in a round of a mid-slice call the flag
  \<^verbatim>\<open>others_completed\<close> ends true although the receive buffer holds a spike record, which is
  not complete.
\<close>

theorem others_completed_counterexample:
  "gather_round 3 (single_process_kernel 1) checkpointed_register reserved_thread_ids 0
     one_pending_spike = Some (Inr (spike_sent True []))
   \<and> others_completed (spike_sent True [])
   \<and> spike 0 1 2 1 \<in> set (recv_buffer_spike_data (spike_sent True []))
   \<and> \<not> spike_is_complete reserved_thread_ids (spike 0 1 2 1)"
  using mid_slice_round by (simp add: reserved_thread_ids_def spike_def spike_sent_def)

text \<open>
  C3, amended. In every round that returns, \<^verbatim>\<open>others_completed\<close> ends true if and only if
  \<^verbatim>\<open>get_from_step()\<close> is greater than 0 or no record of the whole receive buffer has the id of
  a thread of the rank as its \<^verbatim>\<open>tid\<close>, that is, if and only if no thread has forwarded a
  record.
\<close>

theorem others_completed_iff_nothing_delivered:
  assumes "gather_round fuel k ops sd n st = Some (Inr st')"
  shows "others_completed st'
       = (get_from_step k > 0
          \<or> (\<forall>x\<in>set (recv_buffer_spike_data st'). \<not> tid x < get_num_threads k))"
proof (cases "get_from_step k > 0")
  case True
  with gather_round_mid_slice [OF True assms] show ?thesis by simp
next
  case False
  with gather_round_slice_start [OF False assms] show ?thesis by simp
qed

theorem others_completed_iff_nothing_delivered_witness:
  "gather_round 3 (single_process_kernel 0) checkpointed_register reserved_thread_ids 0
     one_pending_spike = Some (Inr (spike_sent False [(0, 1, 2, 12)]))
   \<and> \<not> others_completed (spike_sent False [(0, 1, 2, 12)])
   \<and> \<not> get_from_step (single_process_kernel 0) > 0
   \<and> tid (hd (recv_buffer_spike_data (spike_sent False [(0, 1, 2, 12)])))
        < get_num_threads (single_process_kernel 0)"
  using others_completed_iff_nothing_delivered [OF slice_start_round] slice_start_round
  by (simp add: single_process_kernel_def spike_sent_def spike_def)

text \<open>
  C4 fails on the code: \<^verbatim>\<open>me_completed\<close> is set to true at the top of the round, so the first
  \<^verbatim>\<open>prepare_spike_data_buffers_\<close> stamps every slot complete. Here the register of the thread
  holds a pending spike, and before the collocation of the first round both slots of the
  send buffer are complete, none is empty; after the round, in which the spike was sent and
  \<^verbatim>\<open>me_completed\<close> ended false, the unused slot is still complete.
\<close>

theorem prepare_stamps_complete_while_pending:
  "fst (get_next_spike_data checkpointed_register
          (hd (spike_register_table
                 (round_begin (single_process_kernel 0) checkpointed_register
                    reserved_thread_ids one_pending_spike))) 0 1)
     = Some (0, spike 0 1 2 1)
   \<and> map (spike_is_complete reserved_thread_ids)
        (send_buffer_spike_data
           (round_begin (single_process_kernel 0) checkpointed_register
              reserved_thread_ids one_pending_spike)) = [True, True]
   \<and> map (spike_is_empty reserved_thread_ids)
        (send_buffer_spike_data
           (round_begin (single_process_kernel 0) checkpointed_register
              reserved_thread_ids one_pending_spike)) = [False, False]
   \<and> gather_round 3 (single_process_kernel 0) checkpointed_register
        reserved_thread_ids 0 one_pending_spike = Some (Inr (spike_sent False [(0, 1, 2, 12)]))
   \<and> \<not> me_completed (spike_sent False [(0, 1, 2, 12)])
   \<and> map (spike_is_complete reserved_thread_ids)
        (send_buffer_spike_data (spike_sent False [(0, 1, 2, 12)])) = [False, True]"
proof -
  have "round_begin (single_process_kernel 0) checkpointed_register reserved_thread_ids
          one_pending_spike
      = one_pending_spike\<lparr> send_buffer_spike_data := [spike 1023 0 0 0, spike 1023 0 0 0],
                            me_completed := True, others_completed := True \<rparr>"
    by code_simp
  moreover have "fst (get_next_spike_data checkpointed_register
                    \<lparr> entries = [(0, spike 0 1 2 1)], current = 0, previous = 0, saved = 0 \<rparr>
                    0 1) = Some (0, spike 0 1 2 1)"
    by code_simp
  ultimately show ?thesis
    using slice_start_round
    by (simp add: one_pending_spike_def reserved_thread_ids_def spike_def spike_sent_def)
qed

lemma every_slot_complete_before_collocation:
  "send_buffer_spike_data (round_begin k ops sd st)
     = map (spike_set_complete sd) (send_buffer_spike_data st)"
  by (simp add: round_begin_def prepare_spike_data_buffers_def Let_def)

lemma gather_loop_mid_slice:
  assumes mid: "get_from_step k > 0"
  shows "gather_loop fuel cfuel k ops sd n st = Some (Inr st')
         \<Longrightarrow> send_5g_calls st' = send_5g_calls st"
proof (induction fuel arbitrary: n st)
  case 0
  then show ?case by simp
next
  case (Suc fuel)
  from Suc.prems obtain st1 where
    r: "gather_round cfuel k ops sd n st = Some (Inr st1)"
    by (auto split: option.splits sum.splits)
  from gather_round_mid_slice [OF mid r] have calls: "send_5g_calls st1 = send_5g_calls st"
    by simp
  show ?case
  proof (cases "me_completed st1 \<and> others_completed st1")
    case True
    with Suc.prems r calls show ?thesis by simp
  next
    case False
    with Suc.prems r have "gather_loop fuel cfuel k ops sd (Suc n) st1 = Some (Inr st')"
      by simp
    from Suc.IH [OF this] calls show ?thesis by simp
  qed
qed

lemma gather_spike_data_mid_slice:
  assumes mid: "get_from_step k > 0"
    and run: "gather_spike_data fuel k ops sd st = Some (Inr st')"
  shows "send_5g_calls st' = send_5g_calls st"
proof -
  let ?st0 = "st\<lparr> spike_register_table :=
                  per_thread (reset_entry_point ops) (get_num_threads k)
                    (spike_register_table st) \<rparr>"
  from run obtain st1 where
    loop: "gather_loop fuel fuel k ops sd 0 ?st0 = Some (Inr st1)"
    and st': "st' = st1\<lparr> spike_register_table :=
                  per_thread (clear_register ops) (get_num_threads k)
                    (spike_register_table st1) \<rparr>"
    by (auto simp: gather_spike_data_def split: if_splits option.splits sum.splits)
  from gather_loop_mid_slice [OF mid loop] st' show ?thesis by simp
qed







































end
